theory Spec2Isabelle
  imports Complex_Main "HOL-Library.Word" "HOL-Library.Product_Lexorder" "HOL-Library.AList"
    "HOL-Library.Multiset"
begin

section \<open>Pixel values\<close>

text \<open>
  The notebook \<^verbatim>\<open>Coastal_erosion_monitoring.ipynb\<close> works on arrays of floating-point
  numbers. A pixel value is modelled as an extended number: a finite value, one of the two
  infinities, or NaN (the library's "no data" and the result of an undefined operation).
  Finite values are exact rationals: every finite float is a rational, the rounding of a
  single operation is not modelled, and the two signed zeros are one value. The special
  cases of the arithmetic follow the array library: an operation on NaN is NaN,
  \<open>inf - inf\<close>, \<open>inf / inf\<close> and \<open>0 / 0\<close> are NaN, a non-zero value divided by zero is
  an infinity, and every comparison with NaN is false.
\<close>

datatype fval = Fin rat | PInf | NInf | NaN

fun fneg :: "fval \<Rightarrow> fval" where
  "fneg (Fin a) = Fin (- a)"
| "fneg PInf = NInf"
| "fneg NInf = PInf"
| "fneg NaN = NaN"

fun fadd :: "fval \<Rightarrow> fval \<Rightarrow> fval" where
  "fadd NaN _ = NaN"
| "fadd _ NaN = NaN"
| "fadd (Fin a) (Fin b) = Fin (a + b)"
| "fadd PInf NInf = NaN"
| "fadd NInf PInf = NaN"
| "fadd PInf _ = PInf"
| "fadd NInf _ = NInf"
| "fadd (Fin a) PInf = PInf"
| "fadd (Fin a) NInf = NInf"

definition fsub :: "fval \<Rightarrow> fval \<Rightarrow> fval" where
  "fsub a b = fadd a (fneg b)"

fun fdiv :: "fval \<Rightarrow> fval \<Rightarrow> fval" where
  "fdiv NaN _ = NaN"
| "fdiv _ NaN = NaN"
| "fdiv (Fin a) (Fin b) =
     (if b = 0 then (if a = 0 then NaN else if 0 < a then PInf else NInf)
      else Fin (a / b))"
| "fdiv (Fin a) PInf = Fin 0"
| "fdiv (Fin a) NInf = Fin 0"
| "fdiv PInf (Fin b) = (if 0 \<le> b then PInf else NInf)"
| "fdiv NInf (Fin b) = (if 0 \<le> b then NInf else PInf)"
| "fdiv PInf _ = NaN"
| "fdiv NInf _ = NaN"

fun flt :: "fval \<Rightarrow> fval \<Rightarrow> bool" where
  "flt NaN _ = False"
| "flt _ NaN = False"
| "flt (Fin a) (Fin b) = (a < b)"
| "flt NInf NInf = False"
| "flt NInf _ = True"
| "flt _ NInf = False"
| "flt PInf _ = False"
| "flt (Fin a) PInf = True"

definition fgt :: "fval \<Rightarrow> fval \<Rightarrow> bool" where
  "fgt a b = flt b a"

fun isnan :: "fval \<Rightarrow> bool" where
  "isnan NaN = True"
| "isnan _ = False"

text \<open>Membership of the closed interval from -1 to 1; NaN and the infinities are outside.\<close>

fun in_unit_interval :: "fval \<Rightarrow> bool" where
  "in_unit_interval (Fin r) = (- 1 \<le> r \<and> r \<le> 1)"
| "in_unit_interval _ = False"

section \<open>The water index\<close>

text \<open>
  The cell \<^verbatim>\<open>landsat_ds['MNDWI'] = (landsat_ds.green - landsat_ds.swir1)/(landsat_ds.green + landsat_ds.swir1)\<close>
  computes, pixel by pixel, the difference of the two bands over their sum.
\<close>

definition MNDWI :: "fval \<Rightarrow> fval \<Rightarrow> fval" where
  "MNDWI green swir1 = fdiv (fsub green swir1) (fadd green swir1)"

section \<open>The image time series\<close>

text \<open>
  A timestamp is what the array library stores for \<^verbatim>\<open>datetime64[ns]\<close>: a signed 64-bit
  count of nanoseconds since 1970-01-01T00:00, whose least value stands for "not a time".
  A raster is one layer of pixel values on the y/x grid, flattened row by row. A dataset
  holds the time coordinate, the variables that have one raster per timestep (the bands
  and, once computed, the water index) and the tide height estimated for each timestep.
\<close>

type_synonym datetime64 = "64 word"

type_synonym raster = "fval list"

record dataset =
  time :: "datetime64 list"
  data_vars :: "(string \<times> raster list) list"
  tide_height :: "fval list"

record data_array =
  da_time :: "datetime64 list"
  da_values :: "raster list"

datatype error = AttributeError | ValueError

text \<open>Every variable has one entry per timestep, as the array library maintains.\<close>

definition wf_dataset :: "dataset \<Rightarrow> bool" where
  "wf_dataset ds \<longleftrightarrow>
     length (tide_height ds) = length (time ds) \<and>
     list_all (\<lambda>(name, a). length a = length (time ds)) (data_vars ds)"

text \<open>Attribute access \<^verbatim>\<open>ds.name\<close>: the named variable with the time coordinate.\<close>

definition get_var :: "dataset \<Rightarrow> string \<Rightarrow> error + data_array" where
  "get_var ds name =
     (case map_of (data_vars ds) name of
        None \<Rightarrow> Inl AttributeError
      | Some a \<Rightarrow> Inr \<lparr>da_time = time ds, da_values = a\<rparr>)"

text \<open>
  The assignment \<^verbatim>\<open>landsat_ds['MNDWI'] = ...\<close>: the index of every pixel of every timestep,
  stored under the name MNDWI (replacing a variable of that name, appended otherwise).
\<close>

definition assign_MNDWI :: "dataset \<Rightarrow> error + dataset" where
  "assign_MNDWI ds =
     (case (map_of (data_vars ds) ''green'', map_of (data_vars ds) ''swir1'') of
        (Some g, Some s) \<Rightarrow>
          Inr (ds\<lparr>data_vars :=
                 AList.update ''MNDWI'' (map2 (map2 MNDWI) g s) (data_vars ds)\<rparr>)
      | _ \<Rightarrow> Inl AttributeError)"

section \<open>Tide filtering\<close>

text \<open>
  \<^verbatim>\<open>landsat_ds.where(cond, drop=True)\<close> with a condition along time. The array library
  first clips the dataset and the condition to the positions where the condition holds
  (the indices given by \<^verbatim>\<open>nonzero\<close>, selected with \<^verbatim>\<open>isel\<close>), then replaces by NaN every
  value at which the clipped condition is false.
\<close>

definition nonzero :: "bool list \<Rightarrow> nat list" where
  "nonzero cond = [i \<leftarrow> [0..<length cond]. cond ! i]"

definition isel :: "dataset \<Rightarrow> nat list \<Rightarrow> dataset" where
  "isel ds indexers =
     \<lparr>time = map (\<lambda>i. time ds ! i) indexers,
      data_vars = map (\<lambda>(name, a). (name, map (\<lambda>i. a ! i) indexers)) (data_vars ds),
      tide_height = map (\<lambda>i. tide_height ds ! i) indexers\<rparr>"

definition where_method :: "dataset \<Rightarrow> bool list \<Rightarrow> dataset" where
  "where_method ds cond =
     \<lparr>time = time ds,
      data_vars = map (\<lambda>(name, a).
          (name, map2 (\<lambda>r c. if c then r else map (\<lambda>_. NaN) r) a cond)) (data_vars ds),
      tide_height = map2 (\<lambda>h c. if c then h else NaN) (tide_height ds) cond\<rparr>"

definition where_drop :: "dataset \<Rightarrow> bool list \<Rightarrow> dataset" where
  "where_drop ds cond =
     (let indexers = nonzero cond
      in where_method (isel ds indexers) (map (\<lambda>i. cond ! i) indexers))"

text \<open>
  \<^verbatim>\<open>landsat_ds.where((landsat_ds.tide_height > tide_range[0]) & (landsat_ds.tide_height < tide_range[1]), drop=True)\<close>
\<close>

definition tide_cond :: "fval \<times> fval \<Rightarrow> fval \<Rightarrow> bool" where
  "tide_cond tide_range h \<longleftrightarrow> fgt h (fst tide_range) \<and> flt h (snd tide_range)"

definition landsat_hightide :: "dataset \<Rightarrow> fval \<times> fval \<Rightarrow> dataset" where
  "landsat_hightide landsat_ds tide_range =
     where_drop landsat_ds (map (tide_cond tide_range) (tide_height landsat_ds))"

section \<open>Compositing\<close>

text \<open>
  The median along time skips NaN, as the array library does for floating-point data: the
  values that are not NaN are sorted, the middle one is taken, or the mean of the two
  middle ones when their number is even; with no value left the result is NaN.
\<close>

fun fkey :: "fval \<Rightarrow> int \<times> rat" where
  "fkey NInf = (0, 0)"
| "fkey (Fin r) = (1, r)"
| "fkey PInf = (2, 0)"
| "fkey NaN = (3, 0)"

definition median :: "fval list \<Rightarrow> fval" where
  "median xs =
     (let s = sort_key fkey xs; n = length s
      in if n = 0 then NaN
         else if odd n then s ! (n div 2)
         else fdiv (fadd (s ! (n div 2 - 1)) (s ! (n div 2))) (Fin 2))"

definition nanmedian :: "fval list \<Rightarrow> fval" where
  "nanmedian xs = median (filter (\<lambda>v. \<not> isnan v) xs)"

text \<open>
  One composite layer: the timestamp that labels its period, and the raster.
\<close>

record composite =
  c_time :: datetime64
  c_layer :: raster

text \<open>
  \<^verbatim>\<open>landsat_hightide.MNDWI.resample(time=time_step).median('time')\<close>. How a frequency
  string cuts time into periods belongs to the libraries: \<open>bin_of\<close> gives the number of
  the period a timestamp falls in and \<open>bin_label\<close> the timestamp that labels a period.
  The periods run from that of the earliest timestep to that of the latest, the timesteps
  of one period are stacked and reduced along time pixel by pixel, and a period without
  timesteps keeps its place with a layer of NaN. Grouping an empty time axis is an error,
  and so is resampling a time axis that is not in ascending order.
\<close>

definition reduce_median :: "nat \<Rightarrow> raster list \<Rightarrow> raster" where
  "reduce_median npix stack = map (\<lambda>p. nanmedian (map (\<lambda>r. r ! p) stack)) [0..<npix]"

definition resample_median ::
    "(datetime64 \<Rightarrow> int) \<Rightarrow> (int \<Rightarrow> datetime64) \<Rightarrow> data_array \<Rightarrow> error + composite list" where
  "resample_median bin_of bin_label da =
     (case da_time da of
        [] \<Rightarrow> Inl ValueError
      | t # ts \<Rightarrow>
          if \<not> sorted (map sint (da_time da)) then Inl ValueError
          else
          (let bins = map bin_of (da_time da);
               lo = fold min (map bin_of ts) (bin_of t);
               hi = fold max (map bin_of ts) (bin_of t);
               npix = (case da_values da of [] \<Rightarrow> 0 | r # _ \<Rightarrow> length r)
           in Inr (map (\<lambda>b.
                \<lparr>c_time = bin_label b,
                 c_layer = reduce_median npix
                   (map snd (filter (\<lambda>(k, r). k = b) (zip bins (da_values da))))\<rparr>)
                [lo..hi])))"

text \<open>
  For comparison with the composite: the water-index values of pixel \<open>p\<close> over the
  timesteps of the unfiltered dataset whose tide height lies strictly inside the range and
  whose timestamp falls in period \<open>b\<close>, where \<open>a\<close> is the water-index variable.
\<close>

definition period_values ::
    "(datetime64 \<Rightarrow> int) \<Rightarrow> dataset \<Rightarrow> raster list \<Rightarrow> fval \<times> fval \<Rightarrow> int \<Rightarrow> nat \<Rightarrow> fval list" where
  "period_values bin_of ds a tide_range b p =
     map (\<lambda>(t, h, r). r ! p)
       (filter (\<lambda>(t, h, r). flt (fst tide_range) h \<and> flt h (snd tide_range) \<and> bin_of t = b)
          (zip (time ds) (zip (tide_height ds) a)))"

text \<open>
  What a median is, for comparison with the composite. The order of pixel values is the
  order of the extended numbers, in which NaN is comparable with nothing. A value is the
  median of a non-empty list when the list, arranged in ascending order, has it in the
  middle, or has it as the mean of the two middle entries when the length is even.
\<close>

definition fle :: "fval \<Rightarrow> fval \<Rightarrow> bool" where
  "fle a b \<longleftrightarrow> flt a b \<or> (a = b \<and> \<not> isnan a)"

definition is_median_of :: "fval \<Rightarrow> fval list \<Rightarrow> bool" where
  "is_median_of m vs \<longleftrightarrow>
     (\<exists>s. mset s = mset vs \<and> sorted_wrt fle s \<and> s \<noteq> [] \<and>
          m = (if odd (length s) then s ! (length s div 2)
               else fdiv (fadd (s ! (length s div 2 - 1)) (s ! (length s div 2))) (Fin 2)))"

text \<open>
  The median of the values that are not NaN; NaN when there is no such value.
\<close>

definition is_median_of_defined :: "fval \<Rightarrow> fval list \<Rightarrow> bool" where
  "is_median_of_defined m vs \<longleftrightarrow>
     (if filter (\<lambda>v. \<not> isnan v) vs = [] then m = NaN
      else is_median_of m (filter (\<lambda>v. \<not> isnan v) vs))"

definition landsat_resampled ::
    "(datetime64 \<Rightarrow> int) \<Rightarrow> (int \<Rightarrow> datetime64) \<Rightarrow> dataset \<Rightarrow> error + composite list" where
  "landsat_resampled bin_of bin_label hightide =
     (case get_var hightide ''MNDWI'' of
        Inl e \<Rightarrow> Inl e
      | Inr da \<Rightarrow> resample_median bin_of bin_label da)"

section \<open>Timestamps as text\<close>

text \<open>
  \<^verbatim>\<open>str(i)\<close> of a \<^verbatim>\<open>datetime64[ns]\<close> value is its ISO 8601 form with nanoseconds,
  \<^verbatim>\<open>YYYY-MM-DDThh:mm:ss.nnnnnnnnn\<close>, or \<^verbatim>\<open>NaT\<close>. The array library splits the count of
  nanoseconds into days and the time of day, finds the year and the day of the year through
  the cycles of 400, 100 and 4 years counted from the year 2000, and walks the table of the
  lengths of the months.
\<close>

definition NaT :: datetime64 where
  "NaT = word_of_int (- (2 ^ 63))"

definition ns_per_day :: int where
  "ns_per_day = 86400000000000"

definition is_leapyear :: "int \<Rightarrow> bool" where
  "is_leapyear y \<longleftrightarrow> y mod 4 = 0 \<and> (y mod 100 \<noteq> 0 \<or> y mod 400 = 0)"

definition days_to_yearsdays :: "int \<Rightarrow> int \<times> int" where
  "days_to_yearsdays days =
     (let d0 = days - (365 * 30 + 7);
          y400 = 400 * (d0 div 146097);
          d1 = d0 mod 146097
      in if 366 \<le> d1 then
           (let y100 = 100 * ((d1 - 1) div 36524);
                d2 = (d1 - 1) mod 36524
            in if 365 \<le> d2 then
                 (let y4 = 4 * ((d2 + 1) div 1461);
                      d3 = (d2 + 1) mod 1461
                  in if 366 \<le> d3 then
                       (2000 + y400 + y100 + y4 + (d3 - 1) div 365, (d3 - 1) mod 365)
                     else (2000 + y400 + y100 + y4, d3))
               else (2000 + y400 + y100, d2))
         else (2000 + y400, d1))"

definition month_lengths :: "bool \<Rightarrow> int list" where
  "month_lengths leap = [31, if leap then 29 else 28, 31, 30, 31, 30, 31, 31, 30, 31, 30, 31]"

fun month_day :: "int list \<Rightarrow> int \<Rightarrow> int \<Rightarrow> int \<times> int" where
  "month_day [] m d = (m, d + 1)"
| "month_day (l # ls) m d = (if d < l then (m, d + 1) else month_day ls (m + 1) (d - l))"

definition civil :: "int \<Rightarrow> int \<times> int \<times> int" where
  "civil days =
     (let (y, doy) = days_to_yearsdays days;
          (m, d) = month_day (month_lengths (is_leapyear y)) 1 doy
      in (y, m, d))"

fun digits :: "nat \<Rightarrow> string" where
  "digits n =
     (if n < 10 then [''0123456789'' ! n]
      else digits (n div 10) @ [''0123456789'' ! (n mod 10)])"

declare digits.simps [simp del]

definition pad :: "nat \<Rightarrow> int \<Rightarrow> string" where
  "pad w n =
     (let s = digits (nat \<bar>n\<bar>)
      in (if n < 0 then ''-'' else []) @ replicate (w - length s) (CHR ''0'') @ s)"

definition iso_date :: "datetime64 \<Rightarrow> string" where
  "iso_date t =
     (let (y, m, d) = civil (sint t div ns_per_day)
      in pad 4 y @ ''-'' @ pad 2 m @ ''-'' @ pad 2 d)"

definition iso_time :: "datetime64 \<Rightarrow> string" where
  "iso_time t =
     (let ns = sint t mod ns_per_day;
          s = ns div 1000000000
      in pad 2 (s div 3600) @ '':'' @ pad 2 (s div 60 mod 60) @ '':'' @ pad 2 (s mod 60)
         @ ''.'' @ pad 9 (ns mod 1000000000))"

definition str_datetime64 :: "datetime64 \<Rightarrow> string" where
  "str_datetime64 t = (if t = NaT then ''NaT'' else iso_date t @ ''T'' @ iso_time t)"

text \<open>
  The calendar, for comparison with the string form. Day 0 is 1970-01-01. The number of the
  day with a given date is found by counting: the days of the whole years between 1970 and
  the year, the days of the months of the year before the month, and the days of the month
  before the day. A date is valid when its month is one of the twelve and its day is a day
  of that month.
\<close>

definition year_length :: "int \<Rightarrow> int" where
  "year_length y = (if is_leapyear y then 366 else 365)"

definition days_before_year :: "int \<Rightarrow> int" where
  "days_before_year y =
     (if 1970 \<le> y then sum_list (map year_length [1970..y - 1])
      else - sum_list (map year_length [y..1969]))"

definition days_before_month :: "int \<Rightarrow> int \<Rightarrow> int" where
  "days_before_month y m = sum_list (take (nat (m - 1)) (month_lengths (is_leapyear y)))"

definition days_from_civil :: "int \<Rightarrow> int \<Rightarrow> int \<Rightarrow> int" where
  "days_from_civil y m d = days_before_year y + days_before_month y m + (d - 1)"

text \<open>
  The number of leap years before a year, counted from year 1: it gives the days of whole
  years in closed form.
\<close>

definition leaps_before :: "int \<Rightarrow> int" where
  "leaps_before y = (y - 1) div 4 - (y - 1) div 100 + (y - 1) div 400"

definition valid_date :: "int \<Rightarrow> int \<Rightarrow> int \<Rightarrow> bool" where
  "valid_date y m d \<longleftrightarrow>
     1 \<le> m \<and> m \<le> 12 \<and> 1 \<le> d \<and> d \<le> month_lengths (is_leapyear y) ! nat (m - 1)"

text \<open>
  Reading a decimal numeral: the value of a digit character is its place among the ten
  digits, and a string of digits is read from the left.
\<close>

definition digit_value :: "char \<Rightarrow> nat" where
  "digit_value c = length (takeWhile (\<lambda>x. x \<noteq> c) ''0123456789'')"

definition is_digit :: "char \<Rightarrow> bool" where
  "is_digit c \<longleftrightarrow> digit_value c < 10"

definition decimal :: "string \<Rightarrow> nat" where
  "decimal s = foldl (\<lambda>n c. 10 * n + digit_value c) 0 s"

section \<open>Shoreline extraction\<close>

type_synonym polyline = "(rat \<times> rat) list"

record shoreline =
  sl_time :: string
  sl_level :: fval
  sl_lines :: "polyline list"

text \<open>
  Modelled from the spec: \<^verbatim>\<open>waterline_funcs.contour_extract\<close> (\<^verbatim>\<open>utils/waterline_funcs.py\<close>)
  is called by the notebook and is not among the source files. The specification gives its
  contract: from rasters, an affine transform and a set of threshold levels, a collection of
  polylines tracing the iso-level boundary per threshold per raster, each with a
  minimum-vertex-count filter, tagged with the caller's per-raster attributes; one line
  geometry per raster. The tracer itself is a parameter: \<open>trace aff r z\<close> is the list of
  polylines along which raster \<open>r\<close> crosses level \<open>z\<close>, in the coordinates given by \<open>aff\<close>.
\<close>

definition contour_extract ::
    "('aff \<Rightarrow> raster \<Rightarrow> fval \<Rightarrow> polyline list) \<Rightarrow> fval list \<Rightarrow> raster list \<Rightarrow> 'aff
       \<Rightarrow> string list \<Rightarrow> nat \<Rightarrow> shoreline list" where
  "contour_extract trace z_values ds_array ds_affine attribute_data min_vertices =
     concat (map (\<lambda>z.
        map2 (\<lambda>r label.
           \<lparr>sl_time = label, sl_level = z,
            sl_lines = filter (\<lambda>line. min_vertices \<le> length line) (trace ds_affine r z)\<rparr>)
          ds_array attribute_data)
       z_values)"

text \<open>
  \<^verbatim>\<open>attribute_data = {'time': [str(i)[0:10] for i in landsat_resampled.time.values]}\<close>:
  the list under the one key of the dictionary.
\<close>

definition attribute_data :: "composite list \<Rightarrow> string list" where
  "attribute_data resampled = map (\<lambda>i. take 10 (str_datetime64 i)) (map c_time resampled)"

text \<open>
  The notebook's call: level 0, the composite layers, their labels, at least 100 vertices.
\<close>

definition contour_gdf ::
    "('aff \<Rightarrow> raster \<Rightarrow> fval \<Rightarrow> polyline list) \<Rightarrow> 'aff \<Rightarrow> composite list \<Rightarrow> shoreline list" where
  "contour_gdf trace ds_affine resampled =
     contour_extract trace [Fin 0] (map c_layer resampled) ds_affine
       (attribute_data resampled) 100"

section \<open>Properties of the water index\<close>

text \<open>
  C5. For the band values green = 3 and swir1 = 1 the water index is exactly one half:
  (3 - 1) / (3 + 1).
\<close>

theorem MNDWI_3_1: "MNDWI (Fin 3) (Fin 1) = Fin (1 / 2)"
  by (simp add: MNDWI_def fsub_def)

text \<open>
  C1, as stated, fails: for the equal band values green = swir1 = 1 the index is
  (1 - 1) / (1 + 1) = 0, a defined value, not NaN.
\<close>

theorem MNDWI_equal_bands_counterexample: "MNDWI (Fin 1) (Fin 1) \<noteq> NaN"
  by (simp add: MNDWI_def fsub_def)

text \<open>
  C1, amended. For equal band values green = swir1 = v the index is 0 whenever v is finite
  and not zero; it is NaN exactly when v is zero (the division 0 / 0), infinite or NaN.
\<close>

theorem MNDWI_equal_bands:
  "MNDWI v v = (case v of Fin a \<Rightarrow> if a = 0 then NaN else Fin 0 | _ \<Rightarrow> NaN)"
  by (cases v) (simp_all add: MNDWI_def fsub_def)

theorem MNDWI_equal_bands_witness:
  "MNDWI (Fin 5) (Fin 5) = Fin 0 \<and> MNDWI (Fin 0) (Fin 0) = NaN \<and> MNDWI PInf PInf = NaN"
  using MNDWI_equal_bands [of "Fin 5"] MNDWI_equal_bands [of "Fin 0"] MNDWI_equal_bands [of PInf]
  by simp

text \<open>
  C4, as stated, fails: the band values green = 0 and swir1 = 0 are non-negative, and the
  index there is 0 / 0, which is NaN and so outside the interval from -1 to 1.
\<close>

theorem MNDWI_range_counterexample: "\<not> in_unit_interval (MNDWI (Fin 0) (Fin 0))"
  by (simp add: MNDWI_def fsub_def)

text \<open>
  C4, amended. For non-negative band values green and swir1 that are not both zero, the
  water index lies in the closed interval from -1 to 1.
\<close>

theorem MNDWI_range:
  assumes "0 \<le> g" and "0 \<le> s" and "(g, s) \<noteq> (0, 0)"
  shows "in_unit_interval (MNDWI (Fin g) (Fin s))"
proof -
  from assms have pos: "0 < g + s" by auto
  have "- 1 \<le> (g - s) / (g + s)"
    using assms pos by (simp add: pos_le_divide_eq)
  moreover have "(g - s) / (g + s) \<le> 1"
    using assms pos by (simp add: pos_divide_le_eq)
  ultimately show ?thesis
    using pos by (simp add: MNDWI_def fsub_def)
qed

theorem MNDWI_range_witness:
  "(0::rat) \<le> 3 \<and> (0::rat) \<le> 1 \<and> ((3::rat), (1::rat)) \<noteq> (0, 0)
     \<and> in_unit_interval (MNDWI (Fin 3) (Fin 1))"
  using MNDWI_range [of 3 1] by simp

text \<open>
  C8. Swapping the two bands negates the water index: for band values green and swir1
  whose sum is not zero, (swir1 - green) / (swir1 + green) = - ((green - swir1) / (green + swir1)).
\<close>

theorem MNDWI_swap:
  assumes "g + s \<noteq> 0"
  shows "MNDWI (Fin s) (Fin g) = fneg (MNDWI (Fin g) (Fin s))"
proof -
  have "s - g = - (g - s)" by simp
  then have "(s - g) / (s + g) = - ((g - s) / (g + s))"
    by (simp only: minus_divide_left add.commute)
  with assms show ?thesis
    by (simp add: MNDWI_def fsub_def add.commute)
qed

theorem MNDWI_swap_witness:
  "(3::rat) + 1 \<noteq> 0 \<and> MNDWI (Fin 1) (Fin 3) = fneg (MNDWI (Fin 3) (Fin 1))"
  using MNDWI_swap [of 3 1] by simp

section \<open>Properties of tide filtering\<close>

text \<open>
  The indices found by \<open>nonzero\<close> select from a list exactly the entries at which the
  condition holds, in order, and the masking that follows the clipping changes nothing.
\<close>

lemma nonzero_Cons: "nonzero (c # cs) = (if c then [0] else []) @ map Suc (nonzero cs)"
proof -
  have "[0..<length (c # cs)] = 0 # map Suc [0..<length cs]"
    by (simp add: upt_conv_Cons map_Suc_upt del: upt_Suc)
  then show ?thesis
    by (simp add: nonzero_def filter_map comp_def del: upt_Suc)
qed

lemma nonzero_Nil: "nonzero [] = []"
  by (simp add: nonzero_def)

lemma nth_nonzero: "length xs = length cond \<Longrightarrow>
   map (\<lambda>i. xs ! i) (nonzero cond) = map fst (filter snd (zip xs cond))"
proof (induction xs arbitrary: cond)
  case Nil then show ?case by (simp add: nonzero_Nil)
next
  case (Cons x xs)
  then obtain c cs where c: "cond = c # cs" "length xs = length cs" by (cases cond) auto
  then show ?case using Cons.IH[of cs] by (simp add: nonzero_Cons comp_def)
qed

lemma clipped_all_true: "list_all (\<lambda>c. c) (map (\<lambda>i. cond ! i) (nonzero cond))"
  by (simp add: nonzero_def list_all_iff)

lemma map2_keep: "list_all (\<lambda>c. c) cs \<Longrightarrow> length xs = length cs \<Longrightarrow>
   map2 (\<lambda>x c. if c then x else f x) xs cs = xs"
proof (induction xs arbitrary: cs)
  case Nil then show ?case by simp
next
  case (Cons x xs) then show ?case by (cases cs) auto
qed

lemma where_drop_time: "time (where_drop ds cond) = map (\<lambda>i. time ds ! i) (nonzero cond)"
  by (simp add: where_drop_def where_method_def isel_def Let_def)

lemma where_drop_tide:
  "tide_height (where_drop ds cond) = map (\<lambda>i. tide_height ds ! i) (nonzero cond)"
  by (simp add: where_drop_def where_method_def isel_def Let_def map2_keep[OF clipped_all_true])

lemma clip_keep:
  "map (\<lambda>p. if snd p then fst p else f (fst p))
     (zip (map ((!) a) (nonzero cond)) (map ((!) cond) (nonzero cond)))
   = map ((!) a) (nonzero cond)"
  using map2_keep [OF clipped_all_true, of "map ((!) a) (nonzero cond)" cond f]
  by (simp add: case_prod_unfold)

lemma where_drop_vars:
  "data_vars (where_drop ds cond)
     = map (\<lambda>(name, a). (name, map (\<lambda>i. a ! i) (nonzero cond))) (data_vars ds)"
  by (simp add: where_drop_def where_method_def isel_def Let_def clip_keep
        comp_def case_prod_unfold)

lemma flt_irrefl: "\<not> flt h h"
  by (cases h) simp_all

lemma filter_zip_same: "map fst (filter snd (zip xs (map P xs))) = filter P xs"
  by (induction xs) simp_all

lemma filter_zip_map: "length ts = length hs \<Longrightarrow> map fst (filter snd (zip ts (map P hs)))
    = map fst (filter (\<lambda>(t, h). P h) (zip ts hs))"
proof (induction ts arbitrary: hs)
  case Nil then show ?case by simp
next
  case (Cons t ts) then show ?case by (cases hs) auto
qed

lemma kept_position:
  "length xs = length hs \<Longrightarrow> k < length hs \<Longrightarrow> P (hs ! k) \<Longrightarrow>
     length (filter P (take k hs)) < length (filter P hs)
     \<and> map fst (filter snd (zip xs (map P hs))) ! length (filter P (take k hs)) = xs ! k"
proof (induction xs arbitrary: hs k)
  case Nil then show ?case by simp
next
  case (Cons x xs)
  then obtain h hs' where h: "hs = h # hs'" "length xs = length hs'" by (cases hs) auto
  show ?case
  proof (cases k)
    case 0 then show ?thesis using Cons.prems h by simp
  next
    case (Suc k')
    then have "k' < length hs'" "P (hs' ! k')" using Cons.prems h by simp_all
    from Cons.IH [OF h(2) this] show ?thesis using h Suc by simp
  qed
qed

lemma kept_length:
  "length xs = length hs \<Longrightarrow> length (map fst (filter snd (zip xs (map P hs)))) = length (filter P hs)"
proof (induction xs arbitrary: hs)
  case Nil then show ?case by simp
next
  case (Cons x xs) then show ?case by (cases hs) auto
qed

text \<open>
  C2. Tide filtering keeps exactly the timesteps whose estimated tide height lies strictly
  inside the interval: the time axis of the result is, in order, that of the timesteps with
  \<open>tide_range[0] < tide_height < tide_range[1]\<close>, their tide heights are kept with them,
  and no retained tide height equals an endpoint.
\<close>

theorem tide_filter_strictly_inside:
  assumes "wf_dataset ds"
  shows "time (landsat_hightide ds (lo, hi))
           = map fst (filter (\<lambda>(t, h). flt lo h \<and> flt h hi) (zip (time ds) (tide_height ds)))
       \<and> tide_height (landsat_hightide ds (lo, hi))
           = filter (\<lambda>h. flt lo h \<and> flt h hi) (tide_height ds)
       \<and> lo \<notin> set (tide_height (landsat_hightide ds (lo, hi)))
       \<and> hi \<notin> set (tide_height (landsat_hightide ds (lo, hi)))"
proof -
  let ?P = "tide_cond (lo, hi)"
  have P: "?P = (\<lambda>h. flt lo h \<and> flt h hi)"
    by (simp add: tide_cond_def fgt_def fun_eq_iff)
  from assms have len: "length (time ds) = length (tide_height ds)"
    by (simp add: wf_dataset_def)
  have t: "time (landsat_hightide ds (lo, hi))
      = map fst (filter (\<lambda>(t, h). ?P h) (zip (time ds) (tide_height ds)))"
    using len by (simp add: landsat_hightide_def where_drop_time nth_nonzero filter_zip_map)
  have h: "tide_height (landsat_hightide ds (lo, hi)) = filter ?P (tide_height ds)"
    by (simp add: landsat_hightide_def where_drop_tide nth_nonzero filter_zip_same)
  show ?thesis using t h by (simp add: P flt_irrefl)
qed


theorem tide_filter_strictly_inside_witness:
  "wf_dataset \<lparr>time = [1, 2, 3], data_vars = [(''green'', [[Fin 1], [Fin 2], [Fin 3]])],
                 tide_height = [Fin 0, Fin 1, Fin (7 / 2)]\<rparr>
   \<and> time (landsat_hightide \<lparr>time = [1, 2, 3], data_vars = [(''green'', [[Fin 1], [Fin 2], [Fin 3]])],
                 tide_height = [Fin 0, Fin 1, Fin (7 / 2)]\<rparr> (Fin 0, Fin (7 / 2))) = [2]
   \<and> tide_height (landsat_hightide \<lparr>time = [1, 2, 3], data_vars = [(''green'', [[Fin 1], [Fin 2], [Fin 3]])],
                 tide_height = [Fin 0, Fin 1, Fin (7 / 2)]\<rparr> (Fin 0, Fin (7 / 2))) = [Fin 1]"
  using tide_filter_strictly_inside [of "\<lparr>time = [1, 2, 3], data_vars = [(''green'', [[Fin 1], [Fin 2], [Fin 3]])],
                 tide_height = [Fin 0, Fin 1, Fin (7 / 2)]\<rparr>" "Fin 0" "Fin (7 / 2)"]
  by (simp add: wf_dataset_def)

text \<open>
  C9. Tide filtering removes whole timesteps and leaves the retained data as it was: a
  timestep \<open>k\<close> whose tide height lies strictly inside the range is found in the filtered
  dataset at the position given by the number of retained timesteps before it, with its
  timestamp, and every variable keeps its name and, for that timestep, its raster (the
  value of every pixel).
\<close>

theorem tide_filter_keeps_values:
  assumes wf: "wf_dataset ds"
    and k: "k < length (time ds)"
    and inside: "flt lo (tide_height ds ! k)" "flt (tide_height ds ! k) hi"
    and v: "v < length (data_vars ds)"
  shows "length (filter (\<lambda>h. flt lo h \<and> flt h hi) (take k (tide_height ds)))
           < length (time (landsat_hightide ds (lo, hi)))
       \<and> time (landsat_hightide ds (lo, hi))
             ! length (filter (\<lambda>h. flt lo h \<and> flt h hi) (take k (tide_height ds)))
           = time ds ! k
       \<and> length (data_vars (landsat_hightide ds (lo, hi))) = length (data_vars ds)
       \<and> fst (data_vars (landsat_hightide ds (lo, hi)) ! v) = fst (data_vars ds ! v)
       \<and> snd (data_vars (landsat_hightide ds (lo, hi)) ! v)
             ! length (filter (\<lambda>h. flt lo h \<and> flt h hi) (take k (tide_height ds)))
           = snd (data_vars ds ! v) ! k"
proof -
  let ?P = "\<lambda>h. flt lo h \<and> flt h hi"
  let ?hs = "tide_height ds"
  let ?j = "length (filter ?P (take k ?hs))"
  let ?cond = "map (tide_cond (lo, hi)) ?hs"
  have P: "tide_cond (lo, hi) = ?P"
    by (simp add: tide_cond_def fgt_def fun_eq_iff)
  from wf have len: "length (time ds) = length ?hs"
    by (simp add: wf_dataset_def)
  have kh: "k < length ?hs" "?P (?hs ! k)" using k len inside by simp_all
  have t: "time (landsat_hightide ds (lo, hi)) = map fst (filter snd (zip (time ds) (map ?P ?hs)))"
    using len by (simp add: landsat_hightide_def where_drop_time nth_nonzero P)
  have 1: "?j < length (time (landsat_hightide ds (lo, hi)))"
    using kept_position [where P = ?P, OF len kh] kept_length [where P = ?P, OF len] by (simp only: t)
  have 2: "time (landsat_hightide ds (lo, hi)) ! ?j = time ds ! k"
    using kept_position [where P = ?P, OF len kh] by (simp only: t)
  have dv: "data_vars (landsat_hightide ds (lo, hi))
      = map (\<lambda>(name, a). (name, map (\<lambda>i. a ! i) (nonzero (map ?P ?hs)))) (data_vars ds)"
    by (simp add: landsat_hightide_def where_drop_vars P)
  have 3: "length (data_vars (landsat_hightide ds (lo, hi))) = length (data_vars ds)"
    by (simp add: dv)
  obtain name a where na: "data_vars ds ! v = (name, a)" by (cases "data_vars ds ! v")
  then have "(name, a) \<in> set (data_vars ds)" using v by (metis nth_mem)
  with wf have la: "length a = length ?hs"
    by (auto simp: wf_dataset_def list_all_iff)
  have 4: "data_vars (landsat_hightide ds (lo, hi)) ! v
      = (name, map fst (filter snd (zip a (map ?P ?hs))))"
    using v na la by (simp add: dv nth_nonzero)
  have 5: "map fst (filter snd (zip a (map ?P ?hs))) ! ?j = a ! k"
    using kept_position [where P = ?P, OF la kh] by simp
  show ?thesis using 1 2 3 4 5 na by simp
qed


theorem tide_filter_keeps_values_witness:
  "wf_dataset \<lparr>time = [1, 2, 3], data_vars = [(''green'', [[Fin 1], [Fin 2], [Fin 3]])],
                 tide_height = [Fin 1, Fin 4, Fin 2]\<rparr>
   \<and> (2::nat) < length [1, 2, 3 :: datetime64]
   \<and> flt (Fin 0) ([Fin 1, Fin 4, Fin 2] ! 2) \<and> flt ([Fin 1, Fin 4, Fin 2] ! 2) (Fin (7 / 2))
   \<and> (0::nat) < length [(''green'', [[Fin 1], [Fin 2], [Fin 3]])]
   \<and> time (landsat_hightide \<lparr>time = [1, 2, 3], data_vars = [(''green'', [[Fin 1], [Fin 2], [Fin 3]])],
                 tide_height = [Fin 1, Fin 4, Fin 2]\<rparr> (Fin 0, Fin (7 / 2))) ! 1 = 3
   \<and> snd (data_vars (landsat_hightide \<lparr>time = [1, 2, 3], data_vars = [(''green'', [[Fin 1], [Fin 2], [Fin 3]])],
                 tide_height = [Fin 1, Fin 4, Fin 2]\<rparr> (Fin 0, Fin (7 / 2))) ! 0) ! 1 = [Fin 3]"
  using tide_filter_keeps_values [of "\<lparr>time = [1, 2, 3], data_vars = [(''green'', [[Fin 1], [Fin 2], [Fin 3]])],
                 tide_height = [Fin 1, Fin 4, Fin 2]\<rparr>" 2 "Fin 0" "Fin (7 / 2)" 0]
  by (simp add: wf_dataset_def)

section \<open>The dataset through the stages\<close>

text \<open>
  The index computation succeeds on a dataset that has the two bands, stores the index of
  every pixel under the name MNDWI and leaves the time axis and the tide heights alone;
  it and the tide filtering keep every variable at one entry per timestep.
\<close>

lemma list_all_update:
  "list_all P al \<Longrightarrow> P (k, v) \<Longrightarrow> list_all P (AList.update k v al)"
  by (induction al) auto

lemma assign_MNDWI_result:
  assumes g: "map_of (data_vars ds) ''green'' = Some g"
    and s: "map_of (data_vars ds) ''swir1'' = Some s"
  shows "\<exists>ds'. assign_MNDWI ds = Inr ds'
           \<and> time ds' = time ds \<and> tide_height ds' = tide_height ds
           \<and> map_of (data_vars ds') ''MNDWI'' = Some (map2 (map2 MNDWI) g s)
           \<and> (wf_dataset ds \<longrightarrow> wf_dataset ds')"
proof -
  have "wf_dataset ds \<Longrightarrow>
      wf_dataset (ds\<lparr>data_vars := AList.update ''MNDWI'' (map2 (map2 MNDWI) g s) (data_vars ds)\<rparr>)"
  proof -
    assume wf: "wf_dataset ds"
    from g s have "(''green'', g) \<in> set (data_vars ds)" "(''swir1'', s) \<in> set (data_vars ds)"
      by (auto dest: map_of_SomeD)
    with wf have "length g = length (time ds)" "length s = length (time ds)"
      by (auto simp: wf_dataset_def list_all_iff)
    with wf show ?thesis
      by (simp add: wf_dataset_def list_all_update)
  qed
  then show ?thesis using g s by (simp add: assign_MNDWI_def update_conv')
qed

lemma assign_MNDWI_pixel:
  assumes "t < length g" "t < length s" "p < length (g ! t)" "p < length (s ! t)"
  shows "map2 (map2 MNDWI) g s ! t ! p = MNDWI (g ! t ! p) (s ! t ! p)"
  using assms by simp

lemma landsat_hightide_wf:
  assumes "wf_dataset ds"
  shows "wf_dataset (landsat_hightide ds tide_range)"
  using assms
  by (auto simp: wf_dataset_def landsat_hightide_def where_drop_time where_drop_tide
        where_drop_vars list_all_iff)

section \<open>Properties of compositing\<close>

text \<open>
  The resampling of a data array with a non-empty, ascending time axis, written out: one
  layer for every period from the least to the greatest period of its timestamps. The
  library's median of a list without NaN is a median of that list.
\<close>

lemma fold_min_Min: "fold min (xs::int list) x = Min (set (x # xs))"
  by (simp only: Min.set_eq_fold)

lemma fold_max_Max: "fold max (xs::int list) x = Max (set (x # xs))"
  by (simp only: Max.set_eq_fold)

lemma resample_median_eq:
  assumes t: "da_time da \<noteq> []"
    and mono: "sorted (map sint (da_time da))"
    and len: "length (da_values da) = length (da_time da)"
    and shape: "list_all (\<lambda>r. length r = npix) (da_values da)"
  shows "resample_median bin_of bin_label da =
     Inr (map (\<lambda>b. \<lparr>c_time = bin_label b,
                     c_layer = reduce_median npix
                       (map snd (filter (\<lambda>(k, r). k = b)
                          (zip (map bin_of (da_time da)) (da_values da))))\<rparr>)
            [Min (bin_of ` set (da_time da)) .. Max (bin_of ` set (da_time da))])"
proof -
  from t obtain t0 ts where ts: "da_time da = t0 # ts" by (cases "da_time da") auto
  with len obtain r0 rs where rs: "da_values da = r0 # rs" by (cases "da_values da") auto
  with shape have np: "length r0 = npix" by simp
  have lo: "fold min (map bin_of ts) (bin_of t0) = Min (bin_of ` set (da_time da))"
    by (simp only: fold_min_Min ts list.set(2) image_insert set_map list.map flip: list.map(2))
  have hi: "fold max (map bin_of ts) (bin_of t0) = Max (bin_of ` set (da_time da))"
    by (simp only: fold_max_Max ts list.set(2) image_insert set_map list.map flip: list.map(2))
  from mono have m: "sorted (map sint (t0 # ts))" by (simp only: ts)
  show ?thesis
    unfolding resample_median_def ts list.case Let_def lo [unfolded ts] hi [unfolded ts]
    using m by (simp add: rs np ts)
qed

lemma sorted_wrt_kept:
  "sorted_wrt R xs \<Longrightarrow> sorted_wrt R (map fst (filter snd (zip xs cs)))"
proof (induction xs arbitrary: cs)
  case Nil then show ?case by simp
next
  case (Cons x xs)
  show ?case
  proof (cases cs)
    case Nil then show ?thesis by simp
  next
    case (Cons c cs')
    have "set (map fst (filter snd (zip xs cs'))) \<subseteq> set xs"
      by (auto dest: set_zip_leftD)
    moreover from Cons.prems have "\<forall>y\<in>set xs. R x y" by simp
    ultimately have "\<forall>y\<in>set (map fst (filter snd (zip xs cs'))). R x y"
      by blast
    moreover have "sorted_wrt R (map fst (filter snd (zip xs cs')))"
      using Cons.prems by (intro Cons.IH) simp
    ultimately show ?thesis using Cons by simp
  qed
qed

lemma fle_fkey: "\<not> isnan a \<Longrightarrow> \<not> isnan b \<Longrightarrow> fle a b \<longleftrightarrow> fkey a \<le> fkey b"
  by (cases a; cases b) (auto simp: fle_def)

lemma median_is_median:
  assumes ne: "vs \<noteq> []" and def: "\<forall>v\<in>set vs. \<not> isnan v"
  shows "is_median_of (median vs) vs"
proof -
  let ?s = "sort_key fkey vs"
  have 1: "mset ?s = mset vs" by simp
  have "sorted (map fkey ?s)" by (rule sorted_sort_key)
  then have "sorted_wrt (\<lambda>a b. fkey a \<le> fkey b) ?s" by (simp only: sorted_map)
  then have 2: "sorted_wrt fle ?s"
    by (rule sorted_wrt_mono_rel [rotated]) (use def in \<open>simp add: fle_fkey\<close>)
  have 3: "?s \<noteq> []" using ne by (metis length_0_conv length_sort)
  have "median vs = (if odd (length ?s) then ?s ! (length ?s div 2)
               else fdiv (fadd (?s ! (length ?s div 2 - 1)) (?s ! (length ?s div 2))) (Fin 2))"
    using 3 by (simp add: median_def Let_def)
  with 1 2 3 show ?thesis unfolding is_median_of_def by blast
qed

lemma nanmedian_is_median: "is_median_of_defined (nanmedian vs) vs"
proof (cases "filter (\<lambda>v. \<not> isnan v) vs = []")
  case True
  then show ?thesis by (simp add: is_median_of_defined_def nanmedian_def median_def)
next
  case False
  then have "is_median_of (median (filter (\<lambda>v. \<not> isnan v) vs)) (filter (\<lambda>v. \<not> isnan v) vs)"
    by (intro median_is_median) simp_all
  with False show ?thesis by (simp add: is_median_of_defined_def nanmedian_def)
qed

lemma zip_kept:
  "length ts = length hs \<Longrightarrow> length a = length hs \<Longrightarrow>
     zip (map fst (filter snd (zip ts (map P hs)))) (map fst (filter snd (zip a (map P hs))))
       = map (\<lambda>(t, h, r). (t, r)) (filter (\<lambda>(t, h, r). P h) (zip ts (zip hs a)))"
proof (induction hs arbitrary: ts a)
  case Nil then show ?case by simp
next
  case (Cons h hs)
  then obtain t ts' r a' where "ts = t # ts'" "a = r # a'" "length ts' = length hs" "length a' = length hs"
    by (cases ts; cases a) auto
  then show ?case using Cons.IH [of ts' a'] by simp
qed

lemma select_period:
  "map (\<lambda>r. r ! p) (map snd (filter (\<lambda>(k, r). k = b)
      (map (\<lambda>(t, r). (bin_of t, r)) (map (\<lambda>(t, h, r). (t, r)) (filter (\<lambda>(t, h, r). P h) xs)))))
   = map (\<lambda>(t, h, r). r ! p) (filter (\<lambda>(t, h, r). P h \<and> bin_of t = b) xs)"
  by (induction xs) auto

lemma zip_map_fst: "zip (map f xs) ys = map (\<lambda>(x, y). (f x, y)) (zip xs ys)"
  by (simp add: zip_map1)

lemma hightide_var:
  assumes wf: "wf_dataset ds" and var: "map_of (data_vars ds) name = Some a"
  shows "map_of (data_vars (landsat_hightide ds tide_range)) name
           = Some (map fst (filter snd (zip a (map (tide_cond tide_range) (tide_height ds)))))"
    and "length a = length (tide_height ds)"
proof -
  from var have "(name, a) \<in> set (data_vars ds)" by (rule map_of_SomeD)
  with wf show la: "length a = length (tide_height ds)"
    by (auto simp: wf_dataset_def list_all_iff)
  show "map_of (data_vars (landsat_hightide ds tide_range)) name
           = Some (map fst (filter snd (zip a (map (tide_cond tide_range) (tide_height ds)))))"
    using var la by (simp add: landsat_hightide_def where_drop_vars map_of_map nth_nonzero)
qed

lemma hightide_time:
  assumes wf: "wf_dataset ds"
  shows "time (landsat_hightide ds tide_range)
           = map fst (filter snd (zip (time ds) (map (tide_cond tide_range) (tide_height ds))))"
  using wf by (simp add: landsat_hightide_def where_drop_time nth_nonzero wf_dataset_def)


lemma reduce_median_length: "length (reduce_median npix stack) = npix"
  by (simp add: reduce_median_def)

lemma one_per_period:
  assumes "b \<in> {lo..hi}" and "\<And>x. x \<in> {lo..hi} \<Longrightarrow> P (f x) \<longleftrightarrow> x = b"
  shows "length (filter P (map f [lo..hi])) = 1"
proof -
  have "filter (P \<circ> f) [lo..hi] = filter (\<lambda>x. x = b) [lo..hi]"
    by (rule filter_cong) (simp_all add: assms(2))
  then have "filter P (map f [lo..hi]) = map f (filter (\<lambda>x. x = b) [lo..hi])"
    by (simp add: filter_map)
  moreover have "{x. x = b} \<inter> set [lo..hi] = {b}" using assms(1) by auto
  then have "length (filter (\<lambda>x. x = b) [lo..hi]) = 1"
    by (simp add: distinct_length_filter)
  ultimately show ?thesis by simp
qed

lemma unsorted_raises:
  "landsat_resampled (\<lambda>t. 0) (\<lambda>b. 10)
      \<lparr>time = [3, 1, 2], data_vars = [(''MNDWI'', [[Fin 1], [Fin 2], [Fin 3]])],
          tide_height = [Fin 1, Fin 2, Fin 3]\<rparr> = Inl ValueError"
  by (simp add: landsat_resampled_def get_var_def resample_median_def)

lemma not_median_with_nan: "\<not> is_median_of (Fin 4) [NaN, Fin 4]"
proof
  assume "is_median_of (Fin 4) [NaN, Fin 4]"
  then obtain s where s: "mset s = mset [NaN, Fin 4]" "sorted_wrt fle s"
    unfolding is_median_of_def by blast
  from mset_eq_length [OF s(1)] have "length s = 2" by simp
  then obtain x y where xy: "s = [x, y]"
    by (cases s; cases "tl s") auto
  from mset_eq_setD [OF s(1)] have "set s = {NaN, Fin 4}" by simp
  with xy s(2) show False by (auto simp: fle_def doubleton_eq_iff)
qed

text \<open>
  C3, as stated, fails. One pixel, two retained timesteps in one period, the water index
  NaN at the first and 4 at the second: the composite has the value 4 at the pixel. The
  values of the pixel over all timesteps of the period are NaN and 4, and this list has
  no median, since NaN has no place in an ascending arrangement.
\<close>

theorem composite_median_counterexample:
  "landsat_resampled (\<lambda>t. 0) (\<lambda>b. 10)
      (landsat_hightide \<lparr>time = [1, 2], data_vars = [(''MNDWI'', [[NaN], [Fin 4]])],
          tide_height = [Fin 1, Fin 2]\<rparr> (Fin 0, Fin (7 / 2)))
     = Inr [\<lparr>c_time = 10, c_layer = [Fin 4]\<rparr>]
   \<and> period_values (\<lambda>t. 0) \<lparr>time = [1, 2], data_vars = [(''MNDWI'', [[NaN], [Fin 4]])],
          tide_height = [Fin 1, Fin 2]\<rparr> [[NaN], [Fin 4]] (Fin 0, Fin (7 / 2)) 0 0 = [NaN, Fin 4]
   \<and> \<not> is_median_of (Fin 4) [NaN, Fin 4]"
  using not_median_with_nan
  by (simp add: landsat_hightide_def where_drop_def where_method_def isel_def nonzero_def
          tide_cond_def fgt_def landsat_resampled_def get_var_def resample_median_def
          reduce_median_def nanmedian_def median_def upto.simps period_values_def)

text \<open>
  C3, amended. When the time axis is in ascending order and at least one timestep is
  retained, compositing the tide-filtered water index succeeds and gives exactly one layer
  for every aggregation period from the first to the last period of the retained timesteps,
  labelled with the timestamp of its period (distinct periods having distinct labels). At
  each pixel the layer of a period has the median of those water-index values of the pixel,
  over all retained timesteps assigned to the period, that are not NaN; it has NaN when
  there is no such value.
\<close>

theorem composite_is_median_of_defined:
  assumes wf: "wf_dataset ds"
    and mndwi: "map_of (data_vars ds) ''MNDWI'' = Some a"
    and shape: "list_all (\<lambda>r. length r = npix) a"
    and mono: "sorted (map sint (time ds))"
    and some: "time (landsat_hightide ds tide_range) \<noteq> []"
    and labels: "inj_on bin_label {Min (bin_of ` set (time (landsat_hightide ds tide_range))) ..
                                   Max (bin_of ` set (time (landsat_hightide ds tide_range)))}"
  shows "\<exists>cs lo hi.
           lo = Min (bin_of ` set (time (landsat_hightide ds tide_range)))
         \<and> hi = Max (bin_of ` set (time (landsat_hightide ds tide_range)))
         \<and> landsat_resampled bin_of bin_label (landsat_hightide ds tide_range) = Inr cs
         \<and> map c_time cs = map bin_label [lo..hi]
         \<and> (\<forall>b\<in>{lo..hi}. length (filter (\<lambda>c. c_time c = bin_label b) cs) = 1)
         \<and> (\<forall>i<length cs. length (c_layer (cs ! i)) = npix
               \<and> (\<forall>p<npix. is_median_of_defined (c_layer (cs ! i) ! p)
                      (period_values bin_of ds a tide_range (lo + int i) p)))"
proof -
  let ?ht = "landsat_hightide ds tide_range"
  let ?P = "tide_cond tide_range"
  let ?T = "map fst (filter snd (zip (time ds) (map ?P (tide_height ds))))"
  let ?A = "map fst (filter snd (zip a (map ?P (tide_height ds))))"
  let ?da = "\<lparr>da_time = time ?ht, da_values = ?A\<rparr>"
  let ?lo = "Min (bin_of ` set (time ?ht))"
  let ?hi = "Max (bin_of ` set (time ?ht))"
  let ?f = "\<lambda>b. \<lparr>c_time = bin_label b,
                c_layer = map (\<lambda>p. nanmedian (period_values bin_of ds a tide_range b p)) [0..<npix]\<rparr>"
  let ?cs = "map ?f [?lo..?hi]"
  have la: "length a = length (tide_height ds)" by (rule hightide_var(2) [OF wf mndwi])
  from wf have lt: "length (time ds) = length (tide_height ds)" by (simp add: wf_dataset_def)
  have T: "time ?ht = ?T" by (rule hightide_time [OF wf])
  have gv: "get_var ?ht ''MNDWI'' = Inr ?da"
    by (simp add: get_var_def hightide_var(1) [OF wf mndwi])
  have lenA: "length ?A = length (time ?ht)"
    by (simp only: T kept_length [OF lt] kept_length [OF la])
  have "set ?A \<subseteq> set a" by (auto dest: set_zip_leftD)
  with shape have shapeA: "list_all (\<lambda>r. length r = npix) ?A"
    unfolding list_all_iff by blast
  from mono have "sorted_wrt (\<lambda>x y. sint x \<le> sint y) (time ds)" by (simp only: sorted_map)
  then have "sorted_wrt (\<lambda>x y. sint x \<le> sint y) ?T" by (rule sorted_wrt_kept)
  then have monoT: "sorted (map sint (time ?ht))" by (simp only: T sorted_map)
  have z: "zip (map bin_of (time ?ht)) ?A
      = map (\<lambda>(t, r). (bin_of t, r)) (map (\<lambda>(t, h, r). (t, r))
          (filter (\<lambda>(t, h, r). ?P h) (zip (time ds) (zip (tide_height ds) a))))"
  proof -
    have "zip (map bin_of ?T) ?A = map (\<lambda>(t, r). (bin_of t, r)) (zip ?T ?A)"
      by (rule zip_map_fst)
    then show ?thesis by (simp only: T zip_kept [OF lt la])
  qed
  have layer: "reduce_median npix (map snd (filter (\<lambda>(k, r). k = b) (zip (map bin_of (time ?ht)) ?A)))
      = map (\<lambda>p. nanmedian (period_values bin_of ds a tide_range b p)) [0..<npix]" for b
    unfolding reduce_median_def z select_period period_values_def
    by (simp add: tide_cond_def fgt_def)
  have "resample_median bin_of bin_label ?da = Inr ?cs"
    using resample_median_eq [of ?da npix bin_of bin_label] some monoT lenA shapeA
    by (simp add: layer)
  then have r: "landsat_resampled bin_of bin_label ?ht = Inr ?cs"
    by (simp add: landsat_resampled_def gv)
  have l: "map c_time ?cs = map bin_label [?lo..?hi]" by (simp add: comp_def)
  have one: "\<forall>b\<in>{?lo..?hi}. length (filter (\<lambda>c. c_time c = bin_label b) ?cs) = 1"
  proof
    fix b assume b: "b \<in> {?lo..?hi}"
    show "length (filter (\<lambda>c. c_time c = bin_label b) ?cs) = 1"
    proof (rule one_per_period [OF b])
      fix x assume "x \<in> {?lo..?hi}"
      with labels b show "(c_time (?f x) = bin_label b) = (x = b)"
        by (auto dest: inj_onD)
    qed
  qed
  have px: "\<forall>i<length ?cs. length (c_layer (?cs ! i)) = npix
               \<and> (\<forall>p<npix. is_median_of_defined (c_layer (?cs ! i) ! p)
                      (period_values bin_of ds a tide_range (?lo + int i) p))"
  proof (intro allI impI)
    fix i assume i: "i < length ?cs"
    then have "?lo + int i \<le> ?hi" by simp
    then have "[?lo..?hi] ! i = ?lo + int i" by (rule nth_upto)
    with i have ci: "?cs ! i = ?f (?lo + int i)" by simp
    show "length (c_layer (?cs ! i)) = npix
               \<and> (\<forall>p<npix. is_median_of_defined (c_layer (?cs ! i) ! p)
                      (period_values bin_of ds a tide_range (?lo + int i) p))"
      unfolding ci by (simp add: nanmedian_is_median)
  qed
  from r l one px show ?thesis by blast
qed


theorem composite_is_median_of_defined_witness:
  "wf_dataset \<lparr>time = [1, 2, 3, 4],
       data_vars = [(''MNDWI'', [[Fin 1, NaN], [Fin 5, Fin 2], [Fin 3, Fin 4], [Fin 9, Fin 9]])],
       tide_height = [Fin 1, Fin 9, Fin 2, Fin 3]\<rparr>
   \<and> map_of (data_vars \<lparr>time = [1, 2, 3, 4],
       data_vars = [(''MNDWI'', [[Fin 1, NaN], [Fin 5, Fin 2], [Fin 3, Fin 4], [Fin 9, Fin 9]])],
       tide_height = [Fin 1, Fin 9, Fin 2, Fin 3]\<rparr>) ''MNDWI''
         = Some [[Fin 1, NaN], [Fin 5, Fin 2], [Fin 3, Fin 4], [Fin 9, Fin 9]]
   \<and> list_all (\<lambda>r. length r = 2) [[Fin 1, NaN], [Fin 5, Fin 2], [Fin 3, Fin 4], [Fin 9, Fin 9]]
   \<and> sorted (map sint [1, 2, 3, 4 :: datetime64])
   \<and> time (landsat_hightide \<lparr>time = [1, 2, 3, 4],
       data_vars = [(''MNDWI'', [[Fin 1, NaN], [Fin 5, Fin 2], [Fin 3, Fin 4], [Fin 9, Fin 9]])],
       tide_height = [Fin 1, Fin 9, Fin 2, Fin 3]\<rparr> (Fin 0, Fin (7 / 2))) = [1, 3, 4]
   \<and> inj_on (\<lambda>b::int. if b = 0 then 10 else if b = 1 then 20 else (30::datetime64)) {0..2}
   \<and> landsat_resampled (\<lambda>t. if t = 4 then 2 else 0)
         (\<lambda>b. if b = 0 then 10 else if b = 1 then 20 else 30)
         (landsat_hightide \<lparr>time = [1, 2, 3, 4],
       data_vars = [(''MNDWI'', [[Fin 1, NaN], [Fin 5, Fin 2], [Fin 3, Fin 4], [Fin 9, Fin 9]])],
       tide_height = [Fin 1, Fin 9, Fin 2, Fin 3]\<rparr> (Fin 0, Fin (7 / 2)))
       = Inr [\<lparr>c_time = 10, c_layer = [Fin 2, Fin 4]\<rparr>,
              \<lparr>c_time = 20, c_layer = [NaN, NaN]\<rparr>,
              \<lparr>c_time = 30, c_layer = [Fin 9, Fin 9]\<rparr>]
   \<and> is_median_of_defined (Fin 2) [Fin 1, Fin 3]
   \<and> is_median_of_defined (Fin 4) [NaN, Fin 4]"
proof -
  let ?A = "[[Fin 1, NaN], [Fin 5, Fin 2], [Fin 3, Fin 4], [Fin 9, Fin 9]]"
  let ?D = "\<lparr>time = [1, 2, 3, 4], data_vars = [(''MNDWI'', ?A)],
       tide_height = [Fin 1, Fin 9, Fin 2, Fin 3]\<rparr>"
  let ?r = "(Fin 0, Fin (7 / 2))"
  let ?f = "\<lambda>t::datetime64. if t = 4 then 2 else (0::int)"
  let ?g = "\<lambda>b::int. if b = 0 then 10 else if b = 1 then 20 else (30::datetime64)"
  let ?R = "[\<lparr>c_time = 10, c_layer = [Fin 2, Fin 4]\<rparr>,
              \<lparr>c_time = 20, c_layer = [NaN, NaN]\<rparr>,
              \<lparr>c_time = 30, c_layer = [Fin 9, Fin 9]\<rparr>]"
  have h1: "wf_dataset ?D" by (simp add: wf_dataset_def)
  have h2: "map_of (data_vars ?D) ''MNDWI'' = Some ?A" by simp
  have h3: "list_all (\<lambda>r. length r = 2) ?A" by simp
  have h4: "sorted (map sint (time ?D))" by simp
  have ht: "time (landsat_hightide ?D ?r) = [1, 3, 4]"
    by (simp add: landsat_hightide_def where_drop_def where_method_def isel_def nonzero_def
          tide_cond_def fgt_def)
  have h5: "time (landsat_hightide ?D ?r) \<noteq> []" by (simp add: ht)
  have lo0: "Min (?f ` set (time (landsat_hightide ?D ?r))) = 0" unfolding ht by simp
  have hi2: "Max (?f ` set (time (landsat_hightide ?D ?r))) = 2" unfolding ht by simp
  have inj: "inj_on ?g {0..2}" by (auto simp: inj_on_def split: if_splits)
  then have h6: "inj_on ?g {Min (?f ` set (time (landsat_hightide ?D ?r))) ..
                            Max (?f ` set (time (landsat_hightide ?D ?r)))}"
    by (simp only: lo0 hi2)
  from composite_is_median_of_defined [OF h1 h2 h3 h4 h5 h6] obtain cs lo
    where lo: "lo = Min (?f ` set (time (landsat_hightide ?D ?r)))"
      and r: "landsat_resampled ?f ?g (landsat_hightide ?D ?r) = Inr cs"
      and px: "\<forall>i<length cs. length (c_layer (cs ! i)) = 2
               \<and> (\<forall>p<2. is_median_of_defined (c_layer (cs ! i) ! p)
                      (period_values ?f ?D ?A ?r (lo + int i) p))"
    by blast
  have e: "landsat_resampled ?f ?g (landsat_hightide ?D ?r) = Inr ?R"
    by (simp add: landsat_hightide_def where_drop_def where_method_def isel_def nonzero_def
          tide_cond_def fgt_def landsat_resampled_def get_var_def resample_median_def
          reduce_median_def nanmedian_def median_def upto.simps)
  with r have cs: "cs = ?R" by simp
  have v0: "period_values ?f ?D ?A ?r 0 0 = [Fin 1, Fin 3]"
    by (simp add: period_values_def)
  have v1: "period_values ?f ?D ?A ?r 0 1 = [NaN, Fin 4]"
    by (simp add: period_values_def)
  from px [rule_format, of 0] cs have "\<forall>p<2. is_median_of_defined (c_layer (?R ! 0) ! p)
                      (period_values ?f ?D ?A ?r (lo + int 0) p)" by simp
  then have a: "\<And>p. p < 2 \<Longrightarrow> is_median_of_defined (c_layer (?R ! 0) ! p)
                      (period_values ?f ?D ?A ?r lo p)" by simp
  have "is_median_of_defined (c_layer (?R ! 0) ! 0) (period_values ?f ?D ?A ?r lo 0)"
    "is_median_of_defined (c_layer (?R ! 0) ! 1) (period_values ?f ?D ?A ?r lo 1)"
    using a [of 0] a [of 1] by simp_all
  then have m: "is_median_of_defined (Fin 2) [Fin 1, Fin 3]" "is_median_of_defined (Fin 4) [NaN, Fin 4]"
    unfolding lo lo0 v0 v1 by simp_all
  from h1 h2 h3 h4 ht inj e m show ?thesis by (simp only: simp_thms dataset.simps)
qed

section \<open>Properties of the shoreline labels\<close>

text \<open>
  The calendar conversion is right: the year and the day of the year that it finds add up,
  by the count of days, to the number of the day; the walk over the months ends in a valid
  month and day; and the 64-bit range of nanoseconds keeps the year at four digits. The
  padded decimal form of a number reads back as that number.
\<close>

lemma divl: "0 \<le> r \<Longrightarrow> r < n \<Longrightarrow> (n * k + r) div n = (k::int)"
  by (simp add: div_pos_pos_trivial)

lemma div_step:
  assumes "0 < (n::int)"
  shows "b div n - (b - 1) div n = (if b mod n = 0 then 1 else 0)"
proof (cases "b mod n = 0")
  case True
  have "n * (b div n) + b mod n = b" by (rule mult_div_mod_eq)
  with True have "b - 1 = n * (b div n - 1) + (n - 1)"
    by (simp add: right_diff_distrib)
  moreover have "(n * (b div n - 1) + (n - 1)) div n = b div n - 1"
    using assms by (intro divl) simp_all
  ultimately have "(b - 1) div n = b div n - 1" by (simp only:)
  with True show ?thesis by simp
next
  case False
  have "0 \<le> b mod n" "b mod n < n" using assms by simp_all
  with False have r: "0 \<le> b mod n - 1" "b mod n - 1 < n" by simp_all
  have "n * (b div n) + b mod n = b" by (rule mult_div_mod_eq)
  then have "b - 1 = n * (b div n) + (b mod n - 1)" by simp
  moreover have "(n * (b div n) + (b mod n - 1)) div n = b div n"
    using r by (rule divl)
  ultimately have "(b - 1) div n = b div n" by (simp only:)
  with False show ?thesis by simp
qed


lemma leaps_step: "leaps_before (b + 1) = leaps_before b + (if is_leapyear b then 1 else 0)"
proof -
  have 1: "b mod 100 = 0" if "b mod 400 = 0"
  proof -
    have "b mod 400 mod 100 = b mod 100" by (rule mod_mod_cancel) simp
    with that show ?thesis by simp
  qed
  have 2: "b mod 4 = 0" if "b mod 100 = 0"
  proof -
    have "b mod 100 mod 4 = b mod 4" by (rule mod_mod_cancel) simp
    with that show ?thesis by simp
  qed
  have d4: "b div 4 - (b - 1) div 4 = (if b mod 4 = 0 then 1 else 0)" by (rule div_step) simp
  have d100: "b div 100 - (b - 1) div 100 = (if b mod 100 = 0 then 1 else 0)" by (rule div_step) simp
  have d400: "b div 400 - (b - 1) div 400 = (if b mod 400 = 0 then 1 else 0)" by (rule div_step) simp
  have "leaps_before (b + 1) - leaps_before b
      = (b div 4 - (b - 1) div 4) - (b div 100 - (b - 1) div 100) + (b div 400 - (b - 1) div 400)"
    by (simp add: leaps_before_def)
  also have "\<dots> = (if b mod 4 = 0 then 1 else 0) - (if b mod 100 = 0 then 1 else 0)
      + (if b mod 400 = 0 then 1 else 0)"
    by (simp only: d4 d100 d400)
  also have "\<dots> = (if is_leapyear b then 1 else 0)"
  proof (cases "b mod 400 = 0")
    case True
    with 1 2 show ?thesis by (simp add: is_leapyear_def)
  next
    case F: False
    show ?thesis
    proof (cases "b mod 100 = 0")
      case True
      with F 2 show ?thesis by (simp add: is_leapyear_def)
    next
      case False
      with F show ?thesis by (simp add: is_leapyear_def)
    qed
  qed
  finally show ?thesis by simp
qed

lemma year_sum:
  "a \<le> b \<Longrightarrow> sum_list (map year_length [a..b - 1]) = 365 * (b - a) + leaps_before b - leaps_before a"
proof (induction b rule: int_ge_induct)
  case base
  show ?case by simp
next
  case (step b)
  have "[a..b + 1 - 1] = [a..b - 1] @ [b]" using step.hyps by (simp add: upto_rec2)
  then have "sum_list (map year_length [a..b + 1 - 1])
      = sum_list (map year_length [a..b - 1]) + year_length b" by simp
  also have "\<dots> = 365 * (b - a) + leaps_before b - leaps_before a + year_length b"
    by (simp only: step.IH)
  also have "\<dots> = 365 * (b + 1 - a) + leaps_before (b + 1) - leaps_before a"
    by (simp add: leaps_step year_length_def)
  finally show ?case .
qed

lemma leaps_1970: "leaps_before 1970 = 477"
  by (simp add: leaps_before_def)

lemma days_before_year_eq: "days_before_year y = 365 * (y - 1970) + leaps_before y - 477"
proof (cases "1970 \<le> y")
  case True
  then show ?thesis using year_sum [of 1970 y] by (simp add: days_before_year_def leaps_1970)
next
  case False
  then have "y \<le> 1970" by simp
  from year_sum [OF this] False show ?thesis by (simp add: days_before_year_def leaps_1970)
qed

lemma div_split: "x = n * k + r \<Longrightarrow> 0 \<le> r \<Longrightarrow> r < n \<Longrightarrow> x div n = (k::int)"
  by (simp only: divl)

lemma leaps_cycle:
  assumes "0 \<le> a" "a \<le> 3" "0 \<le> b" "b \<le> 24" "0 \<le> c" "c \<le> 3"
  shows "leaps_before (2000 + 400 * q + 100 * a + 4 * b + c)
     = 484 + 97 * q + 24 * a + b + (if c = 0 then 0 else 1) - (if 4 * b + c = 0 then 0 else 1)
         + (if 100 * a + 4 * b + c = 0 then 0 else 1)"
proof -
  define y where "y = 2000 + 400 * q + 100 * a + 4 * b + c"
  have e4: "(y - 1) div 4 = 499 + 100 * q + 25 * a + b + (if c = 0 then 0 else 1)"
  proof (cases "c = 0")
    case True
    have "(y - 1) div 4 = 499 + 100 * q + 25 * a + b"
      by (rule div_split [where r = 3]) (simp_all add: y_def True)
    with True show ?thesis by simp
  next
    case False
    have "(y - 1) div 4 = 500 + 100 * q + 25 * a + b"
      by (rule div_split [where r = "c - 1"]) (use assms False in \<open>simp_all add: y_def\<close>)
    with False show ?thesis by simp
  qed
  have e100: "(y - 1) div 100 = 19 + 4 * q + a + (if 4 * b + c = 0 then 0 else 1)"
  proof (cases "4 * b + c = 0")
    case True
    with assms have "b = 0" "c = 0" by linarith+
    have "(y - 1) div 100 = 19 + 4 * q + a"
      by (rule div_split [where r = 99]) (simp_all add: y_def \<open>b = 0\<close> \<open>c = 0\<close>)
    with True show ?thesis by simp
  next
    case False
    have "(y - 1) div 100 = 20 + 4 * q + a"
      by (rule div_split [where r = "4 * b + c - 1"]) (use assms False in \<open>simp_all add: y_def\<close>)
    with False show ?thesis by simp
  qed
  have e400: "(y - 1) div 400 = 4 + q + (if 100 * a + 4 * b + c = 0 then 0 else 1)"
  proof (cases "100 * a + 4 * b + c = 0")
    case True
    with assms have "a = 0" "b = 0" "c = 0" by linarith+
    have "(y - 1) div 400 = 4 + q"
      by (rule div_split [where r = 399]) (simp_all add: y_def \<open>a = 0\<close> \<open>b = 0\<close> \<open>c = 0\<close>)
    with True show ?thesis by simp
  next
    case False
    have "(y - 1) div 400 = 5 + q"
      by (rule div_split [where r = "100 * a + 4 * b + c - 1"])
         (use assms False in \<open>simp_all add: y_def\<close>)
    with False show ?thesis by simp
  qed
  have "leaps_before y = (y - 1) div 4 - (y - 1) div 100 + (y - 1) div 400"
    by (simp add: leaps_before_def)
  also have "\<dots> = 484 + 97 * q + 24 * a + b + (if c = 0 then 0 else 1) - (if 4 * b + c = 0 then 0 else 1)
         + (if 100 * a + 4 * b + c = 0 then 0 else 1)"
    unfolding e4 e100 e400 by simp
  finally show ?thesis unfolding y_def .
qed


lemma leap_400: "is_leapyear (2000 + 400 * q)"
proof -
  have "2000 + 400 * q = 400 * (5 + q)" by simp
  then have 1: "(2000 + 400 * q) mod 400 = 0" by (simp only: mod_mult_self1_is_0)
  have "2000 + 400 * q = 4 * (500 + 100 * q)" by simp
  then have 2: "(2000 + 400 * q) mod 4 = 0" by (simp only: mod_mult_self1_is_0)
  from 1 2 show ?thesis by (simp add: is_leapyear_def)
qed

lemma leap_4:
  assumes "1 \<le> b" "b \<le> 24"
  shows "is_leapyear (2000 + 400 * q + 100 * a + 4 * b)"
proof -
  have "2000 + 400 * q + 100 * a + 4 * b = 4 * (500 + 100 * q + 25 * a + b)" by simp
  then have 1: "(2000 + 400 * q + 100 * a + 4 * b) mod 4 = 0" by (simp only: mod_mult_self1_is_0)
  have "2000 + 400 * q + 100 * a + 4 * b = 4 * b + 100 * (20 + 4 * q + a)" by simp
  then have "(2000 + 400 * q + 100 * a + 4 * b) mod 100 = (4 * b) mod 100"
    by (simp only: mod_mult_self2)
  also have "\<dots> = 4 * b" using assms by simp
  finally have 2: "(2000 + 400 * q + 100 * a + 4 * b) mod 100 \<noteq> 0" using assms by simp
  from 1 2 show ?thesis by (simp add: is_leapyear_def)
qed

lemma days_to_yearsdays_bounds:
  assumes "days_to_yearsdays days = (y, doy)"
    and range: "- 106752 \<le> days" "days \<le> 106751"
  shows "0 \<le> doy \<and> doy < (if is_leapyear y then 366 else 365) \<and> 1600 \<le> y \<and> y \<le> 2399
       \<and> days = 365 * (y - 1970) + leaps_before y - 477 + doy"
proof -
  define d0 where "d0 = days - (365 * 30 + 7)"
  define q where "q = d0 div 146097"
  define d1 where "d1 = d0 mod 146097"
  define a where "a = (d1 - 1) div 36524"
  define d2 where "d2 = (d1 - 1) mod 36524"
  define b where "b = (d2 + 1) div 1461"
  define d3 where "d3 = (d2 + 1) mod 1461"
  define c where "c = (d3 - 1) div 365"
  have "(- 117709) div 146097 \<le> d0 div 146097" "d0 div 146097 \<le> 95794 div 146097"
    using range by (intro zdiv_mono1; simp add: d0_def)+
  then have q: "- 1 \<le> q" "q \<le> 0" by (simp_all add: q_def)
  have d1: "0 \<le> d1" "d1 < 146097" by (simp_all add: d1_def)
  have d2: "0 \<le> d2" "d2 < 36524" by (simp_all add: d2_def)
  have d3: "0 \<le> d3" "d3 < 1461" by (simp_all add: d3_def)
  have s0: "days = 10957 + 146097 * q + d1" by (simp add: d0_def q_def d1_def)
  have s1: "d1 - 1 = 36524 * a + d2" by (simp add: a_def d2_def)
  have s2: "d2 + 1 = 1461 * b + d3" by (simp add: b_def d3_def)
  have s3: "d3 - 1 = 365 * c + (d3 - 1) mod 365" by (simp add: c_def)
  have "(d2 + 1) div 1461 \<le> 36524 div 1461" using d2 by (intro zdiv_mono1) simp_all
  then have b: "0 \<le> b" "b \<le> 24" using d2 by (simp_all add: b_def)
  have "days_to_yearsdays days =
      (if 366 \<le> d1 then
         (if 365 \<le> d2 then
            (if 366 \<le> d3 then (2000 + 400 * q + 100 * a + 4 * b + c, (d3 - 1) mod 365)
             else (2000 + 400 * q + 100 * a + 4 * b, d3))
          else (2000 + 400 * q + 100 * a, d2))
       else (2000 + 400 * q, d1))"
    unfolding days_to_yearsdays_def Let_def c_def d3_def b_def d2_def a_def d1_def q_def d0_def
    by (rule refl)
  with assms have eq: "(y, doy) =
      (if 366 \<le> d1 then
         (if 365 \<le> d2 then
            (if 366 \<le> d3 then (2000 + 400 * q + 100 * a + 4 * b + c, (d3 - 1) mod 365)
             else (2000 + 400 * q + 100 * a + 4 * b, d3))
          else (2000 + 400 * q + 100 * a, d2))
       else (2000 + 400 * q, d1))"
    by (simp only:)
  show ?thesis
  proof (cases "366 \<le> d1")
    case False
    with eq have "y = 2000 + 400 * q" "doy = d1" by simp_all
    moreover have "is_leapyear (2000 + 400 * q)" by (rule leap_400)
    moreover have "leaps_before (2000 + 400 * q) = 484 + 97 * q"
      using leaps_cycle [of 0 0 0 q] by simp
    ultimately show ?thesis using False d1 q s0 by simp
  next
    case T1: True
    have "0 div 36524 \<le> (d1 - 1) div 36524" "(d1 - 1) div 36524 \<le> 146095 div 36524"
      using T1 d1 by (intro zdiv_mono1; simp)+
    then have a: "0 \<le> a" "a \<le> 3" by (simp_all add: a_def)
    show ?thesis
    proof (cases "365 \<le> d2")
      case False
      with eq T1 have yd: "doy = d2" "y = 2000 + 400 * q + 100 * a" by simp_all
      from s1 T1 False a have "1 \<le> a" by arith
      with a have "leaps_before (2000 + 400 * q + 100 * a) = 484 + 97 * q + 24 * a + 1"
        using leaps_cycle [of a 0 0 q] by simp
      then show ?thesis using yd False d2 q a s0 s1 by simp
    next
      case T2: True
      show ?thesis
      proof (cases "366 \<le> d3")
        case False
        with eq T1 T2 have yd: "y = 2000 + 400 * q + 100 * a + 4 * b" "doy = d3" by simp_all
        from s2 T2 False b have b1: "1 \<le> b" by arith
        with b have "is_leapyear (2000 + 400 * q + 100 * a + 4 * b)" by (intro leap_4) simp_all
        moreover have "leaps_before (2000 + 400 * q + 100 * a + 4 * b) = 484 + 97 * q + 24 * a + b"
          using leaps_cycle [of a b 0 q] a b b1 by simp
        ultimately show ?thesis using yd False d3 q a b s0 s1 s2 by simp
      next
        case True
        with eq T1 T2 have yd: "doy = (d3 - 1) mod 365" "y = 2000 + 400 * q + 100 * a + 4 * b + c"
          by simp_all
        have "0 div 365 \<le> (d3 - 1) div 365" "(d3 - 1) div 365 \<le> 1459 div 365"
          using True d3 by (intro zdiv_mono1; simp)+
        then have c: "0 \<le> c" "c \<le> 3" by (simp_all add: c_def)
        have "365 div 365 \<le> (d3 - 1) div 365" using True by (intro zdiv_mono1) simp_all
        then have c1: "1 \<le> c" by (simp add: c_def)
        have "leaps_before (2000 + 400 * q + 100 * a + 4 * b + c) = 484 + 97 * q + 24 * a + b + 1"
          using leaps_cycle [of a b c q] a b c c1 by simp
        moreover have "0 \<le> (d3 - 1) mod 365" "(d3 - 1) mod 365 < 365" by simp_all
        ultimately show ?thesis using yd q a b c s0 s1 s2 s3 by auto
      qed
    qed
  qed
qed


lemma month_day_bounds:
  assumes "0 \<le> d" "d < sum_list ls" "\<forall>l\<in>set ls. l \<le> 31" "month_day ls m d = (m', d')"
  shows "m \<le> m' \<and> m' < m + int (length ls) \<and> 1 \<le> d' \<and> d' \<le> 31"
  using assms
proof (induction ls arbitrary: m d)
  case Nil then show ?case by simp
next
  case (Cons l ls)
  show ?case
  proof (cases "d < l")
    case True
    with Cons.prems show ?thesis by auto
  next
    case False
    with Cons.prems have "month_day ls (m + 1) (d - l) = (m', d')" "0 \<le> d - l" "d - l < sum_list ls"
      "\<forall>l\<in>set ls. l \<le> 31" by simp_all
    from Cons.IH [OF this(2) this(3) this(4) this(1)] show ?thesis by simp
  qed
qed

lemma sum_month_lengths: "sum_list (month_lengths leap) = (if leap then 366 else 365)"
  by (simp add: month_lengths_def)

lemma civil_bounds:
  assumes "civil days = (y, m, d)" "- 106752 \<le> days" "days \<le> 106751"
  shows "1600 \<le> y \<and> y \<le> 2399 \<and> 1 \<le> m \<and> m \<le> 12 \<and> 1 \<le> d \<and> d \<le> 31"
proof -
  obtain y0 doy where yd: "days_to_yearsdays days = (y0, doy)" by (cases "days_to_yearsdays days")
  from days_to_yearsdays_bounds [OF yd assms(2,3)]
  have b: "0 \<le> doy" "doy < sum_list (month_lengths (is_leapyear y0))" "1600 \<le> y0" "y0 \<le> 2399"
    by (simp_all add: sum_month_lengths)
  from assms(1) yd have "y = y0" and md: "month_day (month_lengths (is_leapyear y0)) 1 doy = (m, d)"
    by (auto simp: civil_def split: prod.splits)
  have "\<forall>l\<in>set (month_lengths (is_leapyear y0)). l \<le> 31" by (simp add: month_lengths_def)
  from month_day_bounds [OF b(1) b(2) this md] have "1 \<le> m" "m \<le> 12" "1 \<le> d" "d \<le> 31"
    by (simp_all add: month_lengths_def)
  with b \<open>y = y0\<close> show ?thesis by simp
qed

lemma length_digits: "n < 10 ^ Suc k \<Longrightarrow> length (digits n) \<le> Suc k"
proof (induction k arbitrary: n)
  case 0
  then show ?case by (subst digits.simps) simp
next
  case (Suc k)
  show ?case
  proof (cases "n < 10")
    case True
    then show ?thesis by (subst digits.simps) simp
  next
    case False
    from Suc.prems have "n div 10 < 10 ^ Suc k" by simp
    from Suc.IH [OF this] False show ?thesis by (subst digits.simps) simp
  qed
qed

lemma length_digits_2: "n < 100 \<Longrightarrow> length (digits n) \<le> 2"
  using length_digits [of n 1] by simp

lemma length_digits_4: "n < 10000 \<Longrightarrow> length (digits n) \<le> 4"
  using length_digits [of n 3] by simp

lemma length_pad_2: "0 \<le> n \<Longrightarrow> n \<le> 99 \<Longrightarrow> length (pad 2 n) = 2"
  using length_digits_2 [of "nat \<bar>n\<bar>"] by (simp add: pad_def Let_def)

lemma length_pad_4: "0 \<le> n \<Longrightarrow> n \<le> 9999 \<Longrightarrow> length (pad 4 n) = 4"
  using length_digits_4 [of "nat \<bar>n\<bar>"] by (simp add: pad_def Let_def)


lemma days_range: "- 106752 \<le> sint (t::datetime64) div ns_per_day \<and> sint t div ns_per_day \<le> 106751"
proof -
  have "- (2 ^ 63) \<le> sint t" "sint t \<le> 2 ^ 63 - 1"
    using sint_ge [of t] sint_lt [of t] by simp_all
  then have "(- (2 ^ 63)) div ns_per_day \<le> sint t div ns_per_day"
    "sint t div ns_per_day \<le> (2 ^ 63 - 1) div ns_per_day"
    by (intro zdiv_mono1; simp add: ns_per_day_def)+
  then show ?thesis by (simp add: ns_per_day_def)
qed

lemma iso_date_length:
  "length (iso_date t) = 10"
proof -
  obtain y m d where c: "civil (sint t div ns_per_day) = (y, m, d)"
    by (cases "civil (sint t div ns_per_day)")
  from civil_bounds [OF c] days_range [of t]
  have "1600 \<le> y" "y \<le> 2399" "1 \<le> m" "m \<le> 12" "1 \<le> d" "d \<le> 31" by simp_all
  then have "length (pad 4 y) = 4" "length (pad 2 m) = 2" "length (pad 2 d) = 2"
    by (simp_all add: length_pad_2 length_pad_4)
  then show ?thesis by (simp add: iso_date_def c)
qed



lemma month_day_count:
  assumes "0 \<le> d" "d < sum_list ls" "month_day ls m d = (m', d')"
  shows "m \<le> m' \<and> m' < m + int (length ls) \<and> 1 \<le> d' \<and> d' \<le> ls ! nat (m' - m)
       \<and> d = sum_list (take (nat (m' - m)) ls) + (d' - 1)"
  using assms
proof (induction ls arbitrary: m d)
  case Nil then show ?case by simp
next
  case (Cons l ls)
  show ?case
  proof (cases "d < l")
    case True
    with Cons.prems show ?thesis by auto
  next
    case False
    with Cons.prems have p: "0 \<le> d - l" "d - l < sum_list ls" "month_day ls (m + 1) (d - l) = (m', d')"
      by simp_all
    from Cons.IH [OF p] have ih: "m + 1 \<le> m'" "m' < m + 1 + int (length ls)" "1 \<le> d'"
      "d' \<le> ls ! nat (m' - (m + 1))" "d - l = sum_list (take (nat (m' - (m + 1))) ls) + (d' - 1)"
      by simp_all
    from ih(1) have n: "nat (m' - m) = Suc (nat (m' - (m + 1)))" by simp
    show ?thesis using ih unfolding n by simp
  qed
qed

lemma civil_correct:
  assumes c: "civil days = (y, m, d)" and range: "- 106752 \<le> days" "days \<le> 106751"
  shows "valid_date y m d \<and> days_from_civil y m d = days \<and> 1600 \<le> y \<and> y \<le> 2399 \<and> d \<le> 31"
proof -
  obtain y0 doy where yd: "days_to_yearsdays days = (y0, doy)" by (cases "days_to_yearsdays days")
  from days_to_yearsdays_bounds [OF yd range]
  have b: "0 \<le> doy" "doy < sum_list (month_lengths (is_leapyear y0))" "1600 \<le> y0" "y0 \<le> 2399"
    and cnt: "days = 365 * (y0 - 1970) + leaps_before y0 - 477 + doy"
    by (simp_all add: sum_month_lengths)
  from c yd have y: "y = y0" and md: "month_day (month_lengths (is_leapyear y0)) 1 doy = (m, d)"
    by (auto simp: civil_def split: prod.splits)
  from month_day_count [OF b(1) b(2) md]
  have m: "1 \<le> m" "m \<le> 12" "1 \<le> d" "d \<le> month_lengths (is_leapyear y0) ! nat (m - 1)"
    and doy: "doy = sum_list (take (nat (m - 1)) (month_lengths (is_leapyear y0))) + (d - 1)"
    by (simp_all add: month_lengths_def)
  have "nat (m - 1) < length (month_lengths (is_leapyear y0))"
    using m by (simp add: month_lengths_def)
  then have "month_lengths (is_leapyear y0) ! nat (m - 1) \<in> set (month_lengths (is_leapyear y0))"
    by (rule nth_mem)
  moreover have "\<forall>l\<in>set (month_lengths (is_leapyear y0)). l \<le> 31" by (simp add: month_lengths_def)
  ultimately have "month_lengths (is_leapyear y0) ! nat (m - 1) \<le> 31" by blast
  with m have d31: "d \<le> 31" by simp
  have "days_from_civil y m d = days"
    unfolding days_from_civil_def days_before_year_eq days_before_month_def y
    using cnt doy by simp
  with m b d31 show ?thesis by (simp add: valid_date_def y)
qed

lemma digit_value_nth: "k < 10 \<Longrightarrow> digit_value (''0123456789'' ! k) = k"
proof -
  assume "k < 10"
  then have "k \<in> {0, 1, 2, 3, 4, 5, 6, 7, 8, 9}" by auto
  then show ?thesis by (auto simp: digit_value_def)
qed

lemma decimal_snoc: "decimal (s @ [c]) = 10 * decimal s + digit_value c"
  by (simp add: decimal_def)

lemma decimal_digits: "decimal (digits n) = n \<and> list_all is_digit (digits n)"
proof (induction n rule: digits.induct)
  case (1 n)
  show ?case
  proof (cases "n < 10")
    case True
    then show ?thesis
      by (subst (1 2) digits.simps) (simp add: decimal_def is_digit_def digit_value_nth)
  next
    case False
    with 1 have ih: "decimal (digits (n div 10)) = n div 10" "list_all is_digit (digits (n div 10))"
      by simp_all
    have "n mod 10 < 10" by simp
    then have dv: "digit_value (''0123456789'' ! (n mod 10)) = n mod 10" by (rule digit_value_nth)
    have e: "digits n = digits (n div 10) @ [''0123456789'' ! (n mod 10)]"
      using False by (subst digits.simps) simp
    have "is_digit (''0123456789'' ! (n mod 10))" by (simp only: is_digit_def dv)
    then show ?thesis unfolding e decimal_snoc by (simp add: ih dv)
  qed
qed

lemma decimal_zeros: "decimal (replicate k (CHR ''0'') @ s) = decimal s"
proof -
  have z: "digit_value (CHR ''0'') = 0" by (simp add: digit_value_def)
  have "foldl (\<lambda>n c. 10 * n + digit_value c) 0 (replicate k (CHR ''0'')) = 0"
    by (induction k) (simp_all add: z)
  then show ?thesis by (simp add: decimal_def)
qed

lemma pad_decimal:
  assumes "0 \<le> n"
  shows "decimal (pad w n) = nat n \<and> list_all is_digit (pad w n)"
proof -
  have z: "is_digit (CHR ''0'')" by (simp add: is_digit_def digit_value_def)
  from assms have "pad w n = replicate (w - length (digits (nat n))) (CHR ''0'') @ digits (nat n)"
    by (simp add: pad_def Let_def)
  then show ?thesis
    using decimal_digits [of "nat n"] z by (auto simp: decimal_zeros list_all_iff)
qed


lemma take_10_str: "t \<noteq> NaT \<Longrightarrow> take 10 (str_datetime64 t) = iso_date t"
  by (simp add: str_datetime64_def iso_date_length)

lemma resampled_labels:
  assumes "landsat_resampled bin_of bin_label hightide = Inr cs"
  shows "\<forall>c\<in>set cs. c_time c \<in> range bin_label"
  using assms
  by (auto simp: landsat_resampled_def resample_median_def Let_def
        split: sum.splits list.splits if_splits)

lemma day_of_timestamp:
  "(sint (t::datetime64) div ns_per_day) * ns_per_day \<le> sint t
     \<and> sint t < (sint t div ns_per_day + 1) * ns_per_day"
proof -
  have p: "0 < ns_per_day" by (simp add: ns_per_day_def)
  define q where "q = sint t div ns_per_day"
  define r where "r = sint t mod ns_per_day"
  have "ns_per_day * q + r = sint t" unfolding q_def r_def by (rule mult_div_mod_eq)
  moreover have "0 \<le> r" "r < ns_per_day" using p by (simp_all add: r_def)
  ultimately have "q * ns_per_day \<le> sint t \<and> sint t < (q + 1) * ns_per_day"
    by (simp add: algebra_simps)
  then show ?thesis by (simp only: q_def)
qed

text \<open>
  C10. There is one label per composite, and the label of a period is the first 10
  characters of the string form of the period's timestamp. These characters are the date
  of that timestamp: four digits, a hyphen, two digits, a hyphen and two digits, which read
  as the year, the month and the day of a valid calendar date, and the timestamp lies
  within the day that this date has in the count of days from 1970-01-01.
\<close>

theorem attribute_label_is_date:
  assumes res: "landsat_resampled bin_of bin_label hightide = Inr cs"
    and real: "\<And>b. bin_label b \<noteq> NaT"
    and k: "k < length cs"
  shows "length (attribute_data cs) = length cs
       \<and> attribute_data cs ! k = take 10 (str_datetime64 (c_time (cs ! k)))
       \<and> (\<exists>y m d Y M D.
            valid_date y m d
          \<and> days_from_civil y m d * ns_per_day \<le> sint (c_time (cs ! k))
          \<and> sint (c_time (cs ! k)) < (days_from_civil y m d + 1) * ns_per_day
          \<and> attribute_data cs ! k = Y @ ''-'' @ M @ ''-'' @ D
          \<and> length Y = 4 \<and> length M = 2 \<and> length D = 2
          \<and> list_all is_digit (Y @ M @ D)
          \<and> int (decimal Y) = y \<and> int (decimal M) = m \<and> int (decimal D) = d)"
proof -
  let ?t = "c_time (cs ! k)"
  let ?days = "sint ?t div ns_per_day"
  from k have "cs ! k \<in> set cs" by simp
  with resampled_labels [OF res] have "?t \<in> range bin_label" by blast
  then obtain b0 where "?t = bin_label b0" by blast
  with real [of b0] have nat: "?t \<noteq> NaT" by simp
  obtain y m d where c: "civil ?days = (y, m, d)" by (cases "civil ?days")
  from civil_correct [OF c] days_range [of ?t]
  have v: "valid_date y m d" and n: "days_from_civil y m d = ?days"
    and b: "1600 \<le> y" "y \<le> 2399" "d \<le> 31" by simp_all
  from v have b2: "1 \<le> m" "m \<le> 12" "1 \<le> d" by (simp_all add: valid_date_def)
  have l: "length (pad 4 y) = 4" "length (pad 2 m) = 2" "length (pad 2 d) = 2"
    using b b2 by (simp_all add: length_pad_2 length_pad_4)
  have dg: "decimal (pad 4 y) = nat y" "decimal (pad 2 m) = nat m" "decimal (pad 2 d) = nat d"
    "list_all is_digit (pad 4 y)" "list_all is_digit (pad 2 m)" "list_all is_digit (pad 2 d)"
    using b b2 by (simp_all add: pad_decimal)
  have iso: "iso_date ?t = pad 4 y @ ''-'' @ pad 2 m @ ''-'' @ pad 2 d"
    by (simp add: iso_date_def c)
  have a: "attribute_data cs ! k = take 10 (str_datetime64 ?t)"
    using k by (simp add: attribute_data_def)
  also have "\<dots> = iso_date ?t"
    using nat l by (simp add: str_datetime64_def iso)
  finally have lab: "attribute_data cs ! k = pad 4 y @ ''-'' @ pad 2 m @ ''-'' @ pad 2 d"
    by (simp only: iso)
  have day: "days_from_civil y m d * ns_per_day \<le> sint ?t"
    "sint ?t < (days_from_civil y m d + 1) * ns_per_day"
    using day_of_timestamp [of ?t] by (simp_all only: n)
  have dec: "int (decimal (pad 4 y)) = y" "int (decimal (pad 2 m)) = m" "int (decimal (pad 2 d)) = d"
    using b b2 dg by simp_all
  have all: "list_all is_digit (pad 4 y @ pad 2 m @ pad 2 d)" using dg by simp
  have len: "length (attribute_data cs) = length cs" by (simp add: attribute_data_def)
  from v day lab l all dec have "\<exists>y m d Y M D.
            valid_date y m d
          \<and> days_from_civil y m d * ns_per_day \<le> sint ?t
          \<and> sint ?t < (days_from_civil y m d + 1) * ns_per_day
          \<and> attribute_data cs ! k = Y @ ''-'' @ M @ ''-'' @ D
          \<and> length Y = 4 \<and> length M = 2 \<and> length D = 2
          \<and> list_all is_digit (Y @ M @ D)
          \<and> int (decimal Y) = y \<and> int (decimal M) = m \<and> int (decimal D) = d"
    by blast
  with len a show ?thesis by blast
qed


theorem attribute_label_is_date_witness:
  "landsat_resampled (\<lambda>t. 0) (\<lambda>b. 1388448000000000000)
      \<lparr>time = [1388448000000000000], data_vars = [(''MNDWI'', [[Fin 0]])],
         tide_height = [Fin 1]\<rparr>
     = Inr [\<lparr>c_time = 1388448000000000000, c_layer = [Fin 0]\<rparr>]
   \<and> (1388448000000000000 :: datetime64) \<noteq> NaT
   \<and> (0::nat) < length [\<lparr>c_time = 1388448000000000000, c_layer = [Fin 0]\<rparr>]
   \<and> attribute_data [\<lparr>c_time = 1388448000000000000, c_layer = [Fin 0]\<rparr>] ! 0 = ''2013-12-31''
   \<and> valid_date 2013 12 31
   \<and> days_from_civil 2013 12 31 * ns_per_day \<le> sint (1388448000000000000 :: datetime64)
   \<and> sint (1388448000000000000 :: datetime64) < (days_from_civil 2013 12 31 + 1) * ns_per_day"
proof -
  let ?t = "1388448000000000000 :: datetime64"
  let ?H = "\<lparr>time = [?t], data_vars = [(''MNDWI'', [[Fin 0]])], tide_height = [Fin 1]\<rparr>"
  let ?cs = "[\<lparr>c_time = ?t, c_layer = [Fin 0]\<rparr>]"
  have h1: "landsat_resampled (\<lambda>t. 0) (\<lambda>b. ?t) ?H = Inr ?cs"
    by (simp add: landsat_resampled_def get_var_def resample_median_def reduce_median_def
          nanmedian_def median_def)
  have h2: "?t \<noteq> NaT" by (simp add: NaT_def)
  have h3: "(0::nat) < length ?cs" by simp
  have civ: "civil (1388448000000000000 div ns_per_day) = (2013, 12, 31)"
    by (simp add: civil_def days_to_yearsdays_def ns_per_day_def is_leapyear_def month_lengths_def)
  have "attribute_data ?cs ! 0 = take 10 (str_datetime64 ?t)"
    by (simp add: attribute_data_def)
  also have "\<dots> = iso_date ?t"
    using h2 by (rule take_10_str)
  also have "\<dots> = pad 4 2013 @ ''-'' @ pad 2 12 @ ''-'' @ pad 2 31"
    by (simp add: iso_date_def civ)
  also have "\<dots> = ''2013-12-31''"
    by (simp add: pad_def digits.simps)
  finally have lab: "attribute_data ?cs ! 0 = ''2013-12-31''" .
  from attribute_label_is_date [OF h1 h2 h3, THEN conjunct2, THEN conjunct2] obtain y m d Y M D
    where v: "valid_date y m d"
      and lo: "days_from_civil y m d * ns_per_day \<le> sint (c_time (?cs ! 0))"
      and hi: "sint (c_time (?cs ! 0)) < (days_from_civil y m d + 1) * ns_per_day"
      and l: "attribute_data ?cs ! 0 = Y @ ''-'' @ M @ ''-'' @ D"
      and n: "length Y = 4" "length M = 2" "length D = 2"
      and g: "list_all is_digit (Y @ M @ D)"
      and dec: "int (decimal Y) = y" "int (decimal M) = m" "int (decimal D) = d"
    by (elim exE conjE) (rule that, assumption+)
  from l lab have e: "''2013-12-31'' = Y @ ''-'' @ M @ ''-'' @ D" by (simp only:)
  have "take 4 ''2013-12-31'' = Y" unfolding e using n by simp
  moreover have "take 2 (drop 5 ''2013-12-31'') = M" unfolding e using n by simp
  moreover have "drop 8 ''2013-12-31'' = D" unfolding e using n by simp
  ultimately have "Y = ''2013''" "M = ''12''" "D = ''31''" by simp_all
  with dec have "y = 2013" "m = 12" "d = 31"
    by (simp_all add: decimal_def digit_value_def)
  with v lo hi have "valid_date 2013 12 31"
    "days_from_civil 2013 12 31 * ns_per_day \<le> sint ?t"
    "sint ?t < (days_from_civil 2013 12 31 + 1) * ns_per_day"
    by (simp_all only: nth_Cons_0 composite.simps)
  with h1 h2 h3 lab show ?thesis by (simp only: simp_thms)
qed

section \<open>Properties of shoreline extraction\<close>

lemma contour_gdf_eq:
  "contour_gdf trace ds_affine resampled =
     map (\<lambda>c. \<lparr>sl_time = take 10 (str_datetime64 (c_time c)), sl_level = Fin 0,
                 sl_lines = filter (\<lambda>line. 100 \<le> length line)
                              (trace ds_affine (c_layer c) (Fin 0))\<rparr>) resampled"
  by (induction resampled) (simp_all add: contour_gdf_def contour_extract_def attribute_data_def)

text \<open>
  C7. Contour extraction over the composites gives one line geometry per aggregation
  period. The geometry of a period is annotated with the label of that period, belongs to
  the threshold 0, and consists of the polylines traced on the layer of that period at
  level 0 that have at least 100 vertices: every traced polyline with fewer than 100
  vertices is discarded.
\<close>

theorem contour_per_period:
  "length (contour_gdf trace ds_affine resampled) = length resampled
   \<and> (\<forall>k<length resampled.
        sl_time (contour_gdf trace ds_affine resampled ! k) = attribute_data resampled ! k
      \<and> sl_level (contour_gdf trace ds_affine resampled ! k) = Fin 0
      \<and> sl_lines (contour_gdf trace ds_affine resampled ! k)
          = filter (\<lambda>line. 100 \<le> length line)
              (trace ds_affine (c_layer (resampled ! k)) (Fin 0))
      \<and> (\<forall>line\<in>set (trace ds_affine (c_layer (resampled ! k)) (Fin 0)).
            length line < 100 \<longrightarrow>
              line \<notin> set (sl_lines (contour_gdf trace ds_affine resampled ! k))))"
  by (simp add: contour_gdf_eq attribute_data_def)

theorem contour_per_period_witness:
  "length (contour_gdf (\<lambda>aff r z. [replicate 100 (0, 0), [(0, 0), (1, 1)]]) ()
      [\<lparr>c_time = 1388448000000000000, c_layer = [Fin 0]\<rparr>]) = 1
   \<and> sl_level (contour_gdf (\<lambda>aff r z. [replicate 100 (0, 0), [(0, 0), (1, 1)]]) ()
      [\<lparr>c_time = 1388448000000000000, c_layer = [Fin 0]\<rparr>] ! 0) = Fin 0
   \<and> sl_lines (contour_gdf (\<lambda>aff r z. [replicate 100 (0, 0), [(0, 0), (1, 1)]]) ()
      [\<lparr>c_time = 1388448000000000000, c_layer = [Fin 0]\<rparr>] ! 0)
       = [replicate 100 (0, 0)]"
  using contour_per_period [of "\<lambda>aff r z. [replicate 100 (0, 0), [(0, 0), (1, 1)]]" "()"
      "[\<lparr>c_time = 1388448000000000000, c_layer = [Fin 0]\<rparr>]"]
  by simp

end
